theory Spec2Isabelle
  imports Main
begin

text \<open>
  The streaming translation of an OpenAI-compatible proxy for an upstream chat service:
  the parser of the upstream's server-sent events (\<^verbatim>\<open>SSEParser\<close>), the transformer of
  thinking content, the extraction and the stripping of tool calls that the model writes
  into its text, and the two response handlers. The functions are those of
  \<^verbatim>\<open>utils/sse_parser.ts\<close>, \<^verbatim>\<open>utils/helpers.ts\<close>, \<^verbatim>\<open>utils/tools.ts\<close> and
  \<^verbatim>\<open>core/response_handlers.ts\<close>; the built-in functions they call (\<^verbatim>\<open>JSON.parse\<close>,
  \<^verbatim>\<open>JSON.stringify\<close>, \<^verbatim>\<open>TextDecoder\<close>, the regular expressions and the string methods)
  are modelled after ECMA-262 and the Encoding Standard.
\<close>

section \<open>ECMAScript strings\<close>

text \<open>
  A JavaScript string is a sequence of UTF-16 code units. A code unit is modelled as an
  integer (in the range 0 to 65535), so that the non-ASCII literals of the source (the Chinese phrase of
  \<^verbatim>\<open>FUNCTION_CALL_PATTERN\<close>) and the Unicode white space that \<^verbatim>\<open>trim\<close> and
  \<^verbatim>\<open>\s\<close> remove are the characters the program sees. \<open>js\<close> turns an ASCII literal
  into its code units.
\<close>

type_synonym jchar = int
type_synonym jstring = "jchar list"

definition js :: "string \<Rightarrow> jstring" where
  "js s = map of_char s"

text \<open>\<^verbatim>\<open>s.startsWith(p)\<close>.\<close>

fun startsWith :: "jstring \<Rightarrow> jstring \<Rightarrow> bool" where
  "startsWith s [] = True"
| "startsWith [] (p # ps) = False"
| "startsWith (c # cs) (p # ps) = (c = p \<and> startsWith cs ps)"

text \<open>
  \<^verbatim>\<open>s.indexOf(p)\<close>, with \<open>None\<close> for the result \<^verbatim>\<open>-1\<close>.
\<close>

fun indexOf :: "jstring \<Rightarrow> jstring \<Rightarrow> nat option" where
  "indexOf [] p = (if p = [] then Some 0 else None)"
| "indexOf (c # cs) p =
     (if startsWith (c # cs) p then Some 0 else map_option Suc (indexOf cs p))"

text \<open>
  The characters that \<^verbatim>\<open>String.prototype.trim\<close> strips and that \<^verbatim>\<open>\s\<close> matches:
  WhiteSpace and LineTerminator of ECMA-262.
\<close>

definition is_ws :: "jchar \<Rightarrow> bool" where
  "is_ws c \<longleftrightarrow>
     c = 9 \<or> c = 10 \<or> c = 11 \<or> c = 12 \<or> c = 13 \<or> c = 32 \<or> c = 160 \<or> c = 0x1680 \<or>
     (0x2000 \<le> c \<and> c \<le> 0x200A) \<or> c = 0x2028 \<or> c = 0x2029 \<or> c = 0x202F \<or>
     c = 0x205F \<or> c = 0x3000 \<or> c = 0xFEFF"

text \<open>
  \<^verbatim>\<open>s.substring(0, n)\<close>: the first \<open>n\<close> characters, which is all of \<open>s\<close> when \<open>s\<close> has no
  more, and nothing when \<open>n\<close> is negative.
\<close>

definition substring0 :: "jstring \<Rightarrow> int \<Rightarrow> jstring" where
  "substring0 s n = (if int (length s) \<le> n then s else take (nat n) s)"

definition trim :: "jstring \<Rightarrow> jstring" where
  "trim s = rev (dropWhile is_ws (rev (dropWhile is_ws s)))"

text \<open>The characters after which \<^verbatim>\<open>^\<close> matches under the \<^verbatim>\<open>m\<close> flag.\<close>

definition is_line_terminator :: "jchar \<Rightarrow> bool" where
  "is_line_terminator c \<longleftrightarrow> c = 10 \<or> c = 13 \<or> c = 0x2028 \<or> c = 0x2029"

section \<open>Global regular-expression scans\<close>

text \<open>
  Every regular expression of the source carries the \<^verbatim>\<open>g\<close> flag and none of them can
  match the empty string. A global scan (\<^verbatim>\<open>replace\<close>, \<^verbatim>\<open>matchAll\<close>, \<^verbatim>\<open>match\<close>)
  walks the text from the left: where the expression matches at the current position
  the match is taken and the scan goes on behind it, otherwise the character is passed
  over. A matcher gets the character before the current position (for \<^verbatim>\<open>^\<close>) and the
  rest of the text, and returns the length of the match with what the match captures.
\<close>

datatype 'a piece = Lit jchar | Match 'a

type_synonym 'a matcher = "jchar option \<Rightarrow> jstring \<Rightarrow> (nat \<times> 'a) option"

function scan :: "'a matcher \<Rightarrow> jchar option \<Rightarrow> jstring \<Rightarrow> 'a piece list" where
  "scan m prev [] = []"
| "scan m prev (c # cs) =
     (case m prev (c # cs) of
        None \<Rightarrow> Lit c # scan m (Some c) cs
      | Some (n, x) \<Rightarrow>
          if 0 < n then Match x # scan m (Some (last (take n (c # cs)))) (drop n (c # cs))
          else Lit c # scan m (Some c) cs)"
  by pat_completeness auto
termination
  by (relation "measure (\<lambda>(m, prev, s). length s)") auto

text \<open>\<^verbatim>\<open>s.replace(re, f)\<close> for a global \<^verbatim>\<open>re\<close>, \<open>f\<close> computing the replacement.\<close>

definition replace :: "'a matcher \<Rightarrow> ('a \<Rightarrow> jstring) \<Rightarrow> jstring \<Rightarrow> jstring" where
  "replace m f s = concat (map (\<lambda>p. case p of Lit c \<Rightarrow> [c] | Match x \<Rightarrow> f x) (scan m None s))"

text \<open>The matches of a global \<^verbatim>\<open>re\<close> in \<open>s\<close>, from the left.\<close>

definition matches :: "'a matcher \<Rightarrow> jstring \<Rightarrow> 'a list" where
  "matches m s = concat (map (\<lambda>p. case p of Lit c \<Rightarrow> [] | Match x \<Rightarrow> [x]) (scan m None s))"

text \<open>A literal pattern, such as \<^verbatim>\<open>/<Full>/g\<close>.\<close>

definition lit :: "jstring \<Rightarrow> unit matcher" where
  "lit p = (\<lambda>prev s. if startsWith s p then Some (length p, ()) else None)"

section \<open>The thinking-content transformer\<close>

text \<open>
  \<^verbatim>\<open>/<summary>[\s\S]*?<\/summary>/g\<close>: an opening tag, then as little as possible up to
  the first closing tag behind it.
\<close>

definition re_summary :: "unit matcher" where
  "re_summary = (\<lambda>prev s.
     if startsWith s (js ''<summary>'') then
       (case indexOf (drop 9 s) (js ''</summary>'') of
          None \<Rightarrow> None
        | Some k \<Rightarrow> Some (9 + k + 10, ()))
     else None)"

text \<open>
  \<^verbatim>\<open>/<details[^>]*>/g\<close>: the opening of the tag up to the first \<^verbatim>\<open>>\<close>.
\<close>

definition re_details :: "unit matcher" where
  "re_details = (\<lambda>prev s.
     if startsWith s (js ''<details'') then
       (case indexOf (drop 8 s) (js ''>'') of
          None \<Rightarrow> None
        | Some k \<Rightarrow> Some (8 + k + 1, ()))
     else None)"

text \<open>\<^verbatim>\<open>/^> /gm\<close>: the two characters at the start of the text or of a line.\<close>

definition re_quote :: "unit matcher" where
  "re_quote = (\<lambda>prev s.
     if (case prev of None \<Rightarrow> True | Some c \<Rightarrow> is_line_terminator c) \<and> startsWith s (js ''> '')
     then Some (2, ()) else None)"

definition nl_quote :: jstring where
  "nl_quote = [10, 62, 32]"

text \<open>
  \<^verbatim>\<open>transformThinkingContent(content)\<close>; the first argument is
  \<^verbatim>\<open>config.THINKING_PROCESSING\<close>.
\<close>

definition transformThinkingContent :: "jstring \<Rightarrow> jstring \<Rightarrow> jstring" where
  "transformThinkingContent mode content =
    (let c1 = replace re_summary (\<lambda>_. []) content;
         c2 = replace (lit (js ''</Full>'')) (\<lambda>_. [])
                (replace (lit (js ''<Full>'')) (\<lambda>_. [])
                  (replace (lit (js ''</thinking>'')) (\<lambda>_. []) c1));
         c3 = trim c2;
         c4 = (if mode = js ''think'' then
                 replace (lit (js ''</details>'')) (\<lambda>_. js ''</span>'')
                   (replace re_details (\<lambda>_. js ''<span>'') c3)
               else if mode = js ''strip'' then
                 replace (lit (js ''</details>'')) (\<lambda>_. [])
                   (replace re_details (\<lambda>_. []) c3)
               else c3);
         c5 = replace (lit nl_quote) (\<lambda>_. [10]) (replace re_quote (\<lambda>_. []) c4)
     in trim c5)"

text \<open>\<^verbatim>\<open>re.test(s)\<close>: the expression matches somewhere in \<open>s\<close>.\<close>

definition test :: "'a matcher \<Rightarrow> jstring \<Rightarrow> bool" where
  "test m s = (matches m s \<noteq> [])"

text \<open>
  A text is free of markers when none of the expressions that the transformer applies
  under the given mode matches it.
\<close>

definition marker_free :: "jstring \<Rightarrow> jstring \<Rightarrow> bool" where
  "marker_free mode y \<longleftrightarrow>
     \<not> test re_summary y \<and> \<not> test (lit (js ''</thinking>'')) y \<and>
     \<not> test (lit (js ''<Full>'')) y \<and> \<not> test (lit (js ''</Full>'')) y \<and>
     (if mode = js ''think'' \<or> mode = js ''strip''
      then \<not> test re_details y \<and> \<not> test (lit (js ''</details>'')) y else True) \<and>
     \<not> test re_quote y \<and> \<not> test (lit nl_quote) y"

section \<open>JSON values\<close>

text \<open>
  The values that \<^verbatim>\<open>JSON.parse\<close> returns. A number is kept as the decimal it was written
  as, \<open>JNum m e\<close> standing for \<open>m * 10 ^ e\<close>; the rounding to a double is not modelled, and
  nothing below depends on it. An object is the list of its members in the order of its
  own keys.
\<close>

datatype json =
    JNull
  | JBool bool
  | JNum int int
  | JStr jstring
  | JArr "json list"
  | JObj "(jstring \<times> json) list"

text \<open>
  Truthiness, as \<^verbatim>\<open>if (v)\<close> and \<^verbatim>\<open>v && ...\<close> test it. A number is falsy when it is zero;
  that a literal too small for a double is zero in the program is not modelled.
\<close>

fun truthy :: "json \<Rightarrow> bool" where
  "truthy JNull = False"
| "truthy (JBool b) = b"
| "truthy (JNum m e) = (m \<noteq> 0)"
| "truthy (JStr s) = (s \<noteq> [])"
| "truthy (JArr vs) = True"
| "truthy (JObj kvs) = True"

datatype jstype = TObject | TBoolean | TNumber | TString

text \<open>\<^verbatim>\<open>typeof v\<close>.\<close>

fun typeof :: "json \<Rightarrow> jstype" where
  "typeof JNull = TObject"
| "typeof (JBool b) = TBoolean"
| "typeof (JNum m e) = TNumber"
| "typeof (JStr s) = TString"
| "typeof (JArr vs) = TObject"
| "typeof (JObj kvs) = TObject"

text \<open>
  \<^verbatim>\<open>v.k\<close> for a value \<open>v\<close> other than \<^verbatim>\<open>null\<close> and one of the keys the program reads
  (\<^verbatim>\<open>tool_calls\<close>, \<^verbatim>\<open>function\<close>, \<^verbatim>\<open>arguments\<close>, \<^verbatim>\<open>id\<close>, \<^verbatim>\<open>type\<close>): \<open>None\<close> is
  \<^verbatim>\<open>undefined\<close>. Arrays and primitive values have none of these properties.
\<close>

fun get_prop :: "json \<Rightarrow> jstring \<Rightarrow> json option" where
  "get_prop (JObj kvs) k = map_of kvs k"
| "get_prop v k = None"

definition is_digit :: "jchar \<Rightarrow> bool" where
  "is_digit c \<longleftrightarrow> 48 \<le> c \<and> c \<le> 57"

definition digits_val :: "jstring \<Rightarrow> int" where
  "digits_val ds = foldl (\<lambda>a d. a * 10 + (d - 48)) 0 ds"

text \<open>
  A key that is an array index: the decimal of an integer up to \<open>2\<^sup>3\<^sup>2 - 2\<close>, without
  leading zeros. The own keys of an object are ordered with the array indices first,
  ascending, and the other keys behind them as they were inserted.
\<close>

definition is_array_index :: "jstring \<Rightarrow> bool" where
  "is_array_index k \<longleftrightarrow>
     k \<noteq> [] \<and> list_all is_digit k \<and> (k = [48] \<or> hd k \<noteq> 48) \<and> digits_val k \<le> 4294967294"

text \<open>
  \<^verbatim>\<open>o.k = v\<close> on an object: an existing member keeps its place; a new one goes to its
  place among the array indices, or last.
\<close>

definition obj_set :: "(jstring \<times> json) list \<Rightarrow> jstring \<Rightarrow> json \<Rightarrow> (jstring \<times> json) list" where
  "obj_set kvs k v =
     (if map_of kvs k \<noteq> None then map (\<lambda>(k', v'). if k' = k then (k', v) else (k', v')) kvs
      else if is_array_index k then
        takeWhile (\<lambda>(k', v'). is_array_index k' \<and> digits_val k' < digits_val k) kvs
        @ (k, v) # dropWhile (\<lambda>(k', v'). is_array_index k' \<and> digits_val k' < digits_val k) kvs
      else kvs @ [(k, v)])"

section \<open>\<^verbatim>\<open>JSON.parse\<close>\<close>

definition is_json_ws :: "jchar \<Rightarrow> bool" where
  "is_json_ws c \<longleftrightarrow> c = 32 \<or> c = 9 \<or> c = 10 \<or> c = 13"

definition hex_val :: "jchar \<Rightarrow> int option" where
  "hex_val c =
     (if 48 \<le> c \<and> c \<le> 57 then Some (c - 48)
      else if 97 \<le> c \<and> c \<le> 102 then Some (c - 87)
      else if 65 \<le> c \<and> c \<le> 70 then Some (c - 55)
      else None)"

text \<open>The four hexadecimal digits of a \<^verbatim>\<open>\uXXXX\<close> escape.\<close>

fun hex4 :: "jstring \<Rightarrow> jchar option" where
  "hex4 [a, b, c, d] =
     (case (hex_val a, hex_val b, hex_val c, hex_val d) of
        (Some x, Some y, Some z, Some w) \<Rightarrow> Some (((x * 16 + y) * 16 + z) * 16 + w)
      | _ \<Rightarrow> None)"
| "hex4 s = None"

definition unescape :: "jchar \<Rightarrow> jchar option" where
  "unescape e =
     (if e = 34 then Some 34 else if e = 92 then Some 92 else if e = 47 then Some 47
      else if e = 98 then Some 8 else if e = 102 then Some 12 else if e = 110 then Some 10
      else if e = 114 then Some 13 else if e = 116 then Some 9 else None)"

text \<open>
  A string, read from behind its opening quote: the characters it denotes, and the text behind
  its closing quote.
\<close>

fun parse_string :: "jstring \<Rightarrow> (jstring \<times> jstring) option" where
  "parse_string [] = None"
| "parse_string (c # cs) =
     (if c = 34 then Some ([], cs)
      else if c = 92 then
        (case cs of
           [] \<Rightarrow> None
         | e # r \<Rightarrow>
             if e = 117 then
               (case hex4 (take 4 r) of
                  None \<Rightarrow> None
                | Some v \<Rightarrow> map_option (apfst ((#) v)) (parse_string (drop 4 r)))
             else
               (case unescape e of
                  None \<Rightarrow> None
                | Some v \<Rightarrow> map_option (apfst ((#) v)) (parse_string r)))
      else if c < 32 then None
      else map_option (apfst ((#) c)) (parse_string cs))"

text \<open>
  A number: \<^verbatim>\<open>-? (0 | [1-9][0-9]*) (. [0-9]+)? ([eE] [+-]? [0-9]+)?\<close>.
\<close>

definition parse_number :: "jstring \<Rightarrow> (json \<times> jstring) option" where
  "parse_number s =
    (let neg = startsWith s [45];
         s1 = (if neg then drop 1 s else s);
         ip = (if startsWith s1 [48] then [48] else takeWhile is_digit s1);
         s2 = drop (length ip) s1;
         has_fr = startsWith s2 [46];
         fr = (if has_fr then takeWhile is_digit (drop 1 s2) else []);
         s3 = (if has_fr then dropWhile is_digit (drop 1 s2) else s2);
         has_ex = (startsWith s3 [101] \<or> startsWith s3 [69]);
         s4 = drop 1 s3;
         ex_neg = startsWith s4 [45];
         s5 = (if ex_neg \<or> startsWith s4 [43] then drop 1 s4 else s4);
         ex = takeWhile is_digit s5;
         s6 = (if has_ex then dropWhile is_digit s5 else s3);
         m = digits_val (ip @ fr);
         e = (if has_ex then (if ex_neg then - digits_val ex else digits_val ex) else 0)
     in if ip = [] \<or> (has_fr \<and> fr = []) \<or> (has_ex \<and> ex = []) then None
        else Some (JNum (if neg then - m else m) (e - int (length fr)), s6))"

text \<open>
  A value, the elements of an array behind \<^verbatim>\<open>[\<close> and the members of an object behind
  \<^verbatim>\<open>{\<close>, each with the text that follows. The first argument bounds the number of nested
  calls; every call reads at least one character before it calls again, so the length of
  the text is enough. A member that repeats a key replaces the earlier one.
\<close>

fun parse_value :: "nat \<Rightarrow> jstring \<Rightarrow> (json \<times> jstring) option"
  and parse_elements :: "nat \<Rightarrow> json list \<Rightarrow> jstring \<Rightarrow> (json \<times> jstring) option"
  and parse_members :: "nat \<Rightarrow> (jstring \<times> json) list \<Rightarrow> jstring \<Rightarrow> (json \<times> jstring) option"
where
  "parse_value 0 s = None"
| "parse_value (Suc n) s =
     (case dropWhile is_json_ws s of
        [] \<Rightarrow> None
      | c # r \<Rightarrow>
          if c = 123 then
            (if startsWith (dropWhile is_json_ws r) [125]
             then Some (JObj [], drop 1 (dropWhile is_json_ws r))
             else parse_members n [] r)
          else if c = 91 then
            (if startsWith (dropWhile is_json_ws r) [93]
             then Some (JArr [], drop 1 (dropWhile is_json_ws r))
             else parse_elements n [] r)
          else if c = 34 then map_option (apfst JStr) (parse_string r)
          else if startsWith (c # r) (js ''true'') then Some (JBool True, drop 4 (c # r))
          else if startsWith (c # r) (js ''false'') then Some (JBool False, drop 5 (c # r))
          else if startsWith (c # r) (js ''null'') then Some (JNull, drop 4 (c # r))
          else parse_number (c # r))"
| "parse_elements 0 acc s = None"
| "parse_elements (Suc n) acc s =
     (case parse_value n s of
        None \<Rightarrow> None
      | Some (v, r) \<Rightarrow>
          (case dropWhile is_json_ws r of
             [] \<Rightarrow> None
           | c # r' \<Rightarrow>
               if c = 44 then parse_elements n (acc @ [v]) r'
               else if c = 93 then Some (JArr (acc @ [v]), r')
               else None))"
| "parse_members 0 acc s = None"
| "parse_members (Suc n) acc s =
     (case dropWhile is_json_ws s of
        [] \<Rightarrow> None
      | q # r \<Rightarrow>
          if q \<noteq> 34 then None
          else
            (case parse_string r of
               None \<Rightarrow> None
             | Some (k, r1) \<Rightarrow>
                 (case dropWhile is_json_ws r1 of
                    [] \<Rightarrow> None
                  | d # r2 \<Rightarrow>
                      if d \<noteq> 58 then None
                      else
                        (case parse_value n r2 of
                           None \<Rightarrow> None
                         | Some (v, r3) \<Rightarrow>
                             (case dropWhile is_json_ws r3 of
                                [] \<Rightarrow> None
                              | e # r4 \<Rightarrow>
                                  if e = 44 then parse_members n (obj_set acc k v) r4
                                  else if e = 125 then Some (JObj (obj_set acc k v), r4)
                                  else None)))))"

text \<open>
  \<^verbatim>\<open>JSON.parse(text)\<close>: \<open>None\<close> is the \<^verbatim>\<open>SyntaxError\<close>. The whole text has to be one
  value, white space around it apart.
\<close>

definition JSON_parse :: "jstring \<Rightarrow> json option" where
  "JSON_parse s =
     (case parse_value (Suc (length s)) s of
        None \<Rightarrow> None
      | Some (v, r) \<Rightarrow> if dropWhile is_json_ws r = [] then Some v else None)"

section \<open>\<^verbatim>\<open>JSON.stringify\<close>\<close>

definition hex_digit :: "int \<Rightarrow> jchar" where
  "hex_digit d = (if d < 10 then 48 + d else 87 + d)"

definition hex4_of :: "jchar \<Rightarrow> jstring" where
  "hex4_of c =
     [hex_digit (c div 4096 mod 16), hex_digit (c div 256 mod 16),
      hex_digit (c div 16 mod 16), hex_digit (c mod 16)]"

definition is_high_surrogate :: "jchar \<Rightarrow> bool" where
  "is_high_surrogate c \<longleftrightarrow> 0xD800 \<le> c \<and> c \<le> 0xDBFF"

definition is_low_surrogate :: "jchar \<Rightarrow> bool" where
  "is_low_surrogate c \<longleftrightarrow> 0xDC00 \<le> c \<and> c \<le> 0xDFFF"

text \<open>The characters of a string between the quotes (QuoteJSONString of ECMA-262).\<close>

fun quote_chars :: "jstring \<Rightarrow> jstring" where
  "quote_chars [] = []"
| "quote_chars (c # cs) =
     (if c = 8 then [92, 98] @ quote_chars cs
      else if c = 9 then [92, 116] @ quote_chars cs
      else if c = 10 then [92, 110] @ quote_chars cs
      else if c = 12 then [92, 102] @ quote_chars cs
      else if c = 13 then [92, 114] @ quote_chars cs
      else if c = 34 then [92, 34] @ quote_chars cs
      else if c = 92 then [92, 92] @ quote_chars cs
      else if c < 32 then [92, 117] @ hex4_of c @ quote_chars cs
      else if is_high_surrogate c then
        (case cs of
           d # ds \<Rightarrow>
             if is_low_surrogate d then c # d # quote_chars ds
             else [92, 117] @ hex4_of c @ quote_chars cs
         | [] \<Rightarrow> [92, 117] @ hex4_of c)
      else if is_low_surrogate c then [92, 117] @ hex4_of c @ quote_chars cs
      else c # quote_chars cs)"

definition quote :: "jstring \<Rightarrow> jstring" where
  "quote s = [34] @ quote_chars s @ [34]"

text \<open>The decimal digits of a natural number.\<close>

fun digits_of :: "nat \<Rightarrow> jstring" where
  "digits_of n = (if n < 10 then [48 + int n] else digits_of (n div 10) @ [48 + int (n mod 10)])"

text \<open>
  The text of a number. A decimal with trailing zeros of the fraction dropped; this is
  what \<^verbatim>\<open>Number.prototype.toString\<close> prints for the numbers that a double holds exactly
  between \<open>10\<^sup>-\<^sup>6\<close> and \<open>10\<^sup>2\<^sup>1\<close>.
\<close>

function number_text :: "int \<Rightarrow> int \<Rightarrow> jstring" where
  "number_text m e =
     (if m = 0 then [48]
      else if m < 0 then [45] @ number_text (- m) e
      else if 0 \<le> e then digits_of (nat m) @ replicate (nat e) 48
      else if m mod 10 = 0 then number_text (m div 10) (e + 1)
      else
        (let ds = digits_of (nat m); k = nat (- e)
         in if k < length ds then take (length ds - k) ds @ [46] @ drop (length ds - k) ds
            else [48, 46] @ replicate (k - length ds) 48 @ ds))"
  by pat_completeness auto
termination
  by (relation "measure (\<lambda>(m, e). (if m < 0 then 1 else 0) + nat \<bar>m\<bar>)") auto

declare number_text.simps [simp del]

fun intercalate :: "jstring \<Rightarrow> jstring list \<Rightarrow> jstring" where
  "intercalate sep [] = []"
| "intercalate sep [x] = x"
| "intercalate sep (x # y # ys) = x @ sep @ intercalate sep (y # ys)"

text \<open>\<^verbatim>\<open>JSON.stringify(v)\<close>, without indentation.\<close>

fun JSON_stringify :: "json \<Rightarrow> jstring" where
  "JSON_stringify JNull = js ''null''"
| "JSON_stringify (JBool b) = (if b then js ''true'' else js ''false'')"
| "JSON_stringify (JNum m e) = number_text m e"
| "JSON_stringify (JStr s) = quote s"
| "JSON_stringify (JArr vs) = [91] @ intercalate [44] (map JSON_stringify vs) @ [93]"
| "JSON_stringify (JObj kvs) =
     [123] @ intercalate [44] (map (\<lambda>(k, v). quote k @ [58] @ JSON_stringify v) kvs) @ [125]"

section \<open>Configuration\<close>

text \<open>The values of \<^verbatim>\<open>config\<close> that the translation reads.\<close>

record config =
  SCAN_LIMIT :: int
  THINKING_PROCESSING :: jstring
  PRIMARY_MODEL :: jstring

section \<open>Tool extraction patterns\<close>

text \<open>
  \<^verbatim>\<open>TOOL_CALL_FENCE_PATTERN = /```json\s*(\{.*?\})\s*```/gs\<close>. Behind the opening brace the
  lazy \<^verbatim>\<open>.*?\<close> stops at the first closing brace that is followed, white space apart, by
  the closing fence. \<open>fence_close\<close> counts the characters before that brace.
\<close>

fun fence_close :: "jstring \<Rightarrow> nat option" where
  "fence_close [] = None"
| "fence_close (c # cs) =
     (if c = 125 \<and> startsWith (dropWhile is_ws cs) (js ''```'') then Some 0
      else map_option Suc (fence_close cs))"

text \<open>A match carries the whole matched text and the text of group 1.\<close>

definition re_fence :: "(jstring \<times> jstring) matcher" where
  "re_fence = (\<lambda>prev s.
     if startsWith s (js ''```json'') then
       (let r1 = dropWhile is_ws (drop 7 s) in
        if startsWith r1 [123] then
          (case fence_close (drop 1 r1) of
             None \<Rightarrow> None
           | Some k \<Rightarrow>
               (let r2 = drop (k + 2) r1;
                    n = (length s - length r2) + length (takeWhile is_ws r2) + 3
                in Some (n, (take n s, take (k + 2) r1))))
        else None)
     else None)"

text \<open>
  \<^verbatim>\<open>FUNCTION_CALL_PATTERN =
  /\<close>\<open>\<dots>\<close>\<^verbatim>\<open>\s*[\<close>\<open>\<dots>\<close>\<^verbatim>\<open>:]\s*([\w\-\.]+)\s*(?:\<close>\<open>\<dots>\<close>\<^verbatim>\<open>|arguments)[\<close>\<open>\<dots>\<close>\<^verbatim>\<open>:]\s*(\{.*?\})/gs\<close>,
  where the phrase in front is the four characters U+8C03 U+7528 U+51FD U+6570, the
  other colon is U+FF1A and the other keyword is U+53C2 U+6570.
\<close>

definition is_name_char :: "jchar \<Rightarrow> bool" where
  "is_name_char c \<longleftrightarrow>
     (48 \<le> c \<and> c \<le> 57) \<or> (65 \<le> c \<and> c \<le> 90) \<or> (97 \<le> c \<and> c \<le> 122) \<or>
     c = 95 \<or> c = 45 \<or> c = 46"

definition is_colon :: "jchar \<Rightarrow> bool" where
  "is_colon c \<longleftrightarrow> c = 0xFF1A \<or> c = 58"

text \<open>
  What follows the name: \<^verbatim>\<open>\s*(?:\<close>\<open>\<dots>\<close>\<^verbatim>\<open>|arguments)[\<close>\<open>\<dots>\<close>\<^verbatim>\<open>:]\s*(\{.*?\})\<close>, the
  lazy \<^verbatim>\<open>.*?\<close> ending at the first closing brace. The result is the length of the match.
\<close>

definition call_tail :: "jstring \<Rightarrow> nat option" where
  "call_tail s =
    (let r1 = dropWhile is_ws s;
         r2 = (if startsWith r1 [0x53C2, 0x6570] then Some (drop 2 r1)
               else if startsWith r1 (js ''arguments'') then Some (drop 9 r1)
               else None)
     in case r2 of
          None \<Rightarrow> None
        | Some [] \<Rightarrow> None
        | Some (c # r3) \<Rightarrow>
            if is_colon c then
              (let r4 = dropWhile is_ws r3 in
               if startsWith r4 [123] then
                 (case indexOf (drop 1 r4) [125] of
                    None \<Rightarrow> None
                  | Some k \<Rightarrow> Some (length s - length r4 + k + 2))
               else None)
            else None)"

text \<open>
  The greedy name \<^verbatim>\<open>[\w\-\.]+\<close>: the longest run is tried first, then shorter ones, as
  backtracking does.
\<close>

fun call_name :: "nat \<Rightarrow> jstring \<Rightarrow> nat option" where
  "call_name 0 s = None"
| "call_name (Suc l) s =
     (case call_tail (drop (Suc l) s) of
        Some t \<Rightarrow> Some (Suc l + t)
      | None \<Rightarrow> call_name l s)"

text \<open>A match carries the whole matched text.\<close>

definition re_function_call :: "jstring matcher" where
  "re_function_call = (\<lambda>prev s.
     if startsWith s [0x8C03, 0x7528, 0x51FD, 0x6570] then
       (case dropWhile is_ws (drop 4 s) of
          [] \<Rightarrow> None
        | c # r1 \<Rightarrow>
            if is_colon c then
              (let r2 = dropWhile is_ws r1 in
               case call_name (length (takeWhile is_name_char r2)) r2 of
                 None \<Rightarrow> None
               | Some t \<Rightarrow> (let n = length s - length r2 + t in Some (n, take n s)))
            else None)
     else None)"

section \<open>\<^verbatim>\<open>extractToolInvocations\<close>\<close>

text \<open>
  The exceptions: the \<^verbatim>\<open>TypeError\<close> of reading a property of \<^verbatim>\<open>undefined\<close> or
  \<^verbatim>\<open>null\<close>, and the failure of a read of the upstream body.
\<close>

datatype js_error = TypeError | ReadError

text \<open>
  The statements under \<^verbatim>\<open>if (tc.function)\<close>: \<^verbatim>\<open>func.arguments\<close> is made a string when
  it is truthy and not a string already.
\<close>

definition ensure_string_arguments :: "json \<Rightarrow> json" where
  "ensure_string_arguments func =
     (case func of
        JObj fkvs \<Rightarrow>
          (case map_of fkvs (js ''arguments'') of
             None \<Rightarrow> func
           | Some a \<Rightarrow>
               if truthy a then
                 (if typeof a = TObject then
                    JObj (obj_set fkvs (js ''arguments'') (JStr (JSON_stringify a)))
                  else if typeof a \<noteq> TString then
                    JObj (obj_set fkvs (js ''arguments'') (JStr (JSON_stringify a)))
                  else func)
               else func)
      | _ \<Rightarrow> func)"

text \<open>
  One round of \<^verbatim>\<open>for (const tc of toolCalls)\<close>. Reading \<^verbatim>\<open>tc.function\<close> of \<^verbatim>\<open>null\<close>
  throws; this is the result \<open>None\<close>.
\<close>

definition ensure_arguments :: "json \<Rightarrow> json option" where
  "ensure_arguments tc =
     (case tc of
        JNull \<Rightarrow> None
      | JObj kvs \<Rightarrow>
          (case map_of kvs (js ''function'') of
             None \<Rightarrow> Some tc
           | Some func \<Rightarrow>
               if truthy func
               then Some (JObj (obj_set kvs (js ''function'') (ensure_string_arguments func)))
               else Some tc)
      | _ \<Rightarrow> Some tc)"

text \<open>
  The body of the \<^verbatim>\<open>try\<close> of attempts 1 and 2 on a candidate text: the list it returns,
  or \<open>None\<close> when it returns nothing, because the text does not parse, because
  \<^verbatim>\<open>tool_calls\<close> is not an array, or because of a \<^verbatim>\<open>TypeError\<close> that the \<^verbatim>\<open>catch\<close>
  swallows.
\<close>

definition tool_calls_in :: "jstring \<Rightarrow> json list option" where
  "tool_calls_in t =
     (case JSON_parse t of
        None \<Rightarrow> None
      | Some JNull \<Rightarrow> None
      | Some parsedData \<Rightarrow>
          (case get_prop parsedData (js ''tool_calls'') of
             Some (JArr toolCalls) \<Rightarrow> those (map ensure_arguments toolCalls)
           | _ \<Rightarrow> None))"

text \<open>A \<^verbatim>\<open>for\<close> loop that returns from its first round that has a result.\<close>

fun first_result :: "('a \<Rightarrow> 'b option) \<Rightarrow> 'a list \<Rightarrow> 'b option" where
  "first_result f [] = None"
| "first_result f (x # xs) = (case f x of Some y \<Rightarrow> Some y | None \<Rightarrow> first_result f xs)"

text \<open>
  The inner \<^verbatim>\<open>while\<close> of the bracket balance: from \<open>j = i + 1\<close> on, with the given
  \<^verbatim>\<open>braceCount\<close>, \<^verbatim>\<open>inString\<close> and \<^verbatim>\<open>escapeNext\<close>, the number of characters read until
  \<^verbatim>\<open>braceCount\<close> is 0, or \<open>None\<close> when the text ends before.
\<close>

fun balance :: "nat \<Rightarrow> bool \<Rightarrow> bool \<Rightarrow> jstring \<Rightarrow> nat option" where
  "balance 0 inString escapeNext s = Some 0"
| "balance (Suc b) inString escapeNext [] = None"
| "balance (Suc b) inString escapeNext (c # cs) =
     map_option Suc
       (if escapeNext then balance (Suc b) inString False cs
        else if c = 92 then balance (Suc b) inString True cs
        else if c = 34 \<and> \<not> escapeNext then balance (Suc b) (\<not> inString) escapeNext cs
        else if \<not> inString then
          (if c = 123 then balance (Suc (Suc b)) inString escapeNext cs
           else if c = 125 then balance b inString escapeNext cs
           else balance (Suc b) inString escapeNext cs)
        else balance (Suc b) inString escapeNext cs)"

text \<open>Attempt 2, the outer \<^verbatim>\<open>while\<close> from position \<open>i\<close> on.\<close>

fun inline_scan :: "jstring \<Rightarrow> json list option" where
  "inline_scan [] = None"
| "inline_scan (c # cs) =
     (if c = 123 then
        (case balance 1 False False cs of
           None \<Rightarrow> inline_scan cs
         | Some k \<Rightarrow>
             (case tool_calls_in (c # take k cs) of
                Some toolCalls \<Rightarrow> Some toolCalls
              | None \<Rightarrow> inline_scan cs))
      else inline_scan cs)"

text \<open>
  Attempt 3. \<^verbatim>\<open>scannableText.match(FUNCTION_CALL_PATTERN)\<close> with a global expression is
  \<^verbatim>\<open>null\<close> or the array of the matched texts, so that \<^verbatim>\<open>naturalLangMatch[1]\<close> and
  \<^verbatim>\<open>naturalLangMatch[2]\<close> are the second and the third match, \<^verbatim>\<open>undefined\<close> when there
  are fewer; \<^verbatim>\<open>.trim()\<close> of \<^verbatim>\<open>undefined\<close> throws outside the \<^verbatim>\<open>try\<close>. The first argument
  is \<^verbatim>\<open>Date.now()\<close>.
\<close>

definition natural_language :: "int \<Rightarrow> jstring \<Rightarrow> js_error + json list option" where
  "natural_language now scannableText =
     (case matches re_function_call scannableText of
        [] \<Rightarrow> Inr None
      | [m0] \<Rightarrow> Inl TypeError
      | [m0, m1] \<Rightarrow> Inl TypeError
      | m0 # m1 # m2 # ms \<Rightarrow>
          (let functionName = trim m1; argumentsStr = trim m2 in
           case JSON_parse argumentsStr of
             None \<Rightarrow> Inr None
           | Some v \<Rightarrow>
               Inr (Some [JObj
                 [(js ''id'', JStr (js ''call_'' @ number_text (now * 1000000) 0)),
                  (js ''type'', JStr (js ''function'')),
                  (js ''function'',
                     JObj [(js ''name'', JStr functionName),
                           (js ''arguments'', JStr argumentsStr)])]])))"

text \<open>
  \<^verbatim>\<open>extractToolInvocations(text)\<close>: \<open>Inr None\<close> is \<^verbatim>\<open>null\<close>, \<open>Inr (Some l)\<close> the array
  \<open>l\<close>, \<open>Inl TypeError\<close> the exception that leaves the function.
\<close>

definition extractToolInvocations ::
  "config \<Rightarrow> int \<Rightarrow> jstring \<Rightarrow> js_error + json list option" where
  "extractToolInvocations cfg now text =
     (if text = [] then Inr None
      else
        (let scannableText = substring0 text (SCAN_LIMIT cfg) in
         case first_result (\<lambda>match. tool_calls_in (snd match)) (matches re_fence scannableText) of
           Some toolCalls \<Rightarrow> Inr (Some toolCalls)
         | None \<Rightarrow>
             (case inline_scan scannableText of
                Some toolCalls \<Rightarrow> Inr (Some toolCalls)
              | None \<Rightarrow> natural_language now scannableText)))"

section \<open>\<^verbatim>\<open>removeToolJsonContent\<close>\<close>

text \<open>
  \<^verbatim>\<open>s[i]\<close> where a string is wanted: the character at \<open>i\<close>, or \<^verbatim>\<open>undefined\<close>, which
  \<^verbatim>\<open>JSON.parse\<close> and \<^verbatim>\<open>replace\<close> read as the text \<^verbatim>\<open>"undefined"\<close>.
\<close>

definition str_at :: "jstring \<Rightarrow> nat \<Rightarrow> jstring" where
  "str_at s i = (if i < length s then [s ! i] else js ''undefined'')"

text \<open>
  \<^verbatim>\<open>try { parsed = JSON.parse(t); if ("tool_calls" in parsed) ... } catch {}\<close>: whether the
  \<^verbatim>\<open>if\<close> is entered. The operator \<^verbatim>\<open>in\<close> throws on a value that is not an object, which
  the \<^verbatim>\<open>catch\<close> swallows, and an array has no such property.
\<close>

definition has_tool_calls :: "jstring \<Rightarrow> bool" where
  "has_tool_calls t =
     (case JSON_parse t of
        Some (JObj kvs) \<Rightarrow> map_of kvs (js ''tool_calls'') \<noteq> None
      | _ \<Rightarrow> False)"

text \<open>
  \<^verbatim>\<open>removeToolCallBlock(match)\<close>. \<^verbatim>\<open>String.prototype.replace\<close> calls it with the matched
  text as its first argument, so that \<^verbatim>\<open>match[1]\<close> and \<^verbatim>\<open>match[0]\<close> are the second and
  the first character of the match.
\<close>

definition removeToolCallBlock :: "jstring \<Rightarrow> jstring" where
  "removeToolCallBlock match =
     (let jsonContent = str_at match 1 in
      if has_tool_calls jsonContent then [] else str_at match 0)"

text \<open>Step 2, the \<^verbatim>\<open>while\<close> from position \<open>i\<close> on: the characters pushed to \<^verbatim>\<open>result\<close>.\<close>

function strip_inline :: "jstring \<Rightarrow> jstring" where
  "strip_inline [] = []"
| "strip_inline (c # cs) =
     (if c = 123 then
        (case balance 1 False False cs of
           None \<Rightarrow> c # strip_inline cs
         | Some k \<Rightarrow>
             if has_tool_calls (c # take k cs) then strip_inline (drop k cs)
             else c # strip_inline cs)
      else c # strip_inline cs)"
  by pat_completeness auto
termination
  by (relation "measure length") auto

definition removeToolJsonContent :: "jstring \<Rightarrow> jstring" where
  "removeToolJsonContent text =
     (let cleanedText = replace re_fence (\<lambda>match. removeToolCallBlock (fst match)) text
      in trim (strip_inline cleanedText))"

section \<open>The SSE parser\<close>

text \<open>
  \<^verbatim>\<open>s.split(sep)\<close> for a separator that is not empty.
\<close>

function split :: "jstring \<Rightarrow> jstring \<Rightarrow> jstring list" where
  "split s sep =
     (if sep = [] then map (\<lambda>c. [c]) s
      else
        (case indexOf s sep of
           None \<Rightarrow> [s]
         | Some k \<Rightarrow> take k s # split (drop (k + length sep) s) sep))"
  by pat_completeness auto
termination
proof (relation "measure (\<lambda>(s, sep). length s)")
  show "wf (measure (\<lambda>(s, sep). length s))" by simp
next
  fix s sep :: jstring and k :: nat
  assume "sep \<noteq> []" and "indexOf s sep = Some k"
  then have "s \<noteq> []" by (cases s) auto
  with \<open>sep \<noteq> []\<close> show "((drop (k + length sep) s, sep), (s, sep)) \<in> measure (\<lambda>(s, sep). length s)"
    by simp
qed

declare split.simps [simp del]

type_synonym byte = int

text \<open>
  \<^verbatim>\<open>new TextDecoder()\<close> decodes UTF-8. Its state between two calls of
  \<^verbatim>\<open>decode(value, { stream: true })\<close> is the state of the UTF-8 decoder of the Encoding
  Standard, with the flag that the first character has been seen (a byte order mark in
  front is dropped).
\<close>

record utf8_state =
  code_point :: int
  bytes_seen :: nat
  bytes_needed :: nat
  lower_boundary :: int
  upper_boundary :: int
  bom_seen :: bool

definition utf8_init :: utf8_state where
  "utf8_init =
     \<lparr>code_point = 0, bytes_seen = 0, bytes_needed = 0,
      lower_boundary = 0x80, upper_boundary = 0xBF, bom_seen = False\<rparr>"

definition utf8_reset :: "utf8_state \<Rightarrow> utf8_state" where
  "utf8_reset st =
     st\<lparr>code_point := 0, bytes_seen := 0, bytes_needed := 0,
        lower_boundary := 0x80, upper_boundary := 0xBF\<rparr>"

text \<open>A byte read when no bytes are needed: the code points it gives, and the new state.\<close>

definition utf8_lead :: "utf8_state \<Rightarrow> byte \<Rightarrow> int list \<times> utf8_state" where
  "utf8_lead st b =
     (if b \<le> 0x7F then ([b], st)
      else if 0xC2 \<le> b \<and> b \<le> 0xDF then
        ([], st\<lparr>bytes_needed := 1, code_point := b - 0xC0\<rparr>)
      else if 0xE0 \<le> b \<and> b \<le> 0xEF then
        ([], st\<lparr>bytes_needed := 2, code_point := b - 0xE0,
               lower_boundary := (if b = 0xE0 then 0xA0 else lower_boundary st),
               upper_boundary := (if b = 0xED then 0x9F else upper_boundary st)\<rparr>)
      else if 0xF0 \<le> b \<and> b \<le> 0xF4 then
        ([], st\<lparr>bytes_needed := 3, code_point := b - 0xF0,
               lower_boundary := (if b = 0xF0 then 0x90 else lower_boundary st),
               upper_boundary := (if b = 0xF4 then 0x8F else upper_boundary st)\<rparr>)
      else ([0xFFFD], st))"

text \<open>
  One byte. A byte that cannot continue the sequence gives U+FFFD and is read again as
  the start of a sequence.
\<close>

definition utf8_byte :: "utf8_state \<Rightarrow> byte \<Rightarrow> int list \<times> utf8_state" where
  "utf8_byte st b =
     (if bytes_needed st = 0 then utf8_lead st b
      else if b < lower_boundary st \<or> upper_boundary st < b then
        (let (out, st') = utf8_lead (utf8_reset st) b in (0xFFFD # out, st'))
      else
        (let st1 = st\<lparr>lower_boundary := 0x80, upper_boundary := 0xBF,
                       code_point := code_point st * 64 + (b - 0x80),
                       bytes_seen := bytes_seen st + 1\<rparr>
         in if bytes_seen st1 \<noteq> bytes_needed st1 then ([], st1)
            else ([code_point st1], utf8_reset st1)))"

text \<open>The UTF-16 code units of a code point.\<close>

definition utf16 :: "int \<Rightarrow> jstring" where
  "utf16 cp =
     (if cp < 0x10000 then [cp]
      else [0xD800 + (cp - 0x10000) div 1024, 0xDC00 + (cp - 0x10000) mod 1024])"

text \<open>The code points of one byte as a string; the first code point of the stream is
  dropped when it is the byte order mark.\<close>

definition decode_byte :: "utf8_state \<Rightarrow> byte \<Rightarrow> jstring \<times> utf8_state" where
  "decode_byte st b =
     (let (cps, st') = utf8_byte st b in
      case cps of
        [] \<Rightarrow> ([], st')
      | cp # rest \<Rightarrow>
          if bom_seen st' then (concat (map utf16 cps), st')
          else ((if cp = 0xFEFF then [] else utf16 cp) @ concat (map utf16 rest),
                st'\<lparr>bom_seen := True\<rparr>))"

text \<open>\<^verbatim>\<open>decoder.decode(value, { stream: true })\<close>.\<close>

fun decode :: "utf8_state \<Rightarrow> byte list \<Rightarrow> jstring \<times> utf8_state" where
  "decode st [] = ([], st)"
| "decode st (b # bs) =
     (let (out1, st1) = decode_byte st b; (out2, st2) = decode st1 bs in (out1 @ out2, st2))"

text \<open>
  \<^verbatim>\<open>parseInt(value, 10)\<close>: white space, a sign, then the digits in front; \<open>None\<close> is
  \<^verbatim>\<open>NaN\<close>. The value is the exact integer; beyond \<open>2\<^sup>5\<^sup>3\<close> the program has the double
  nearest to it instead. No statement below depends on the value.
\<close>

definition parseInt :: "jstring \<Rightarrow> int option" where
  "parseInt s =
     (let s1 = dropWhile is_ws s;
          neg = startsWith s1 [45];
          s2 = (if neg \<or> startsWith s1 [43] then drop 1 s1 else s1);
          ds = takeWhile is_digit s2
      in if ds = [] then None else Some (if neg then - digits_val ds else digits_val ds))"

text \<open>An \<^verbatim>\<open>SSEEvent\<close>: each constructor is one of the object literals that are yielded.\<close>

datatype SSEEvent =
    DataJson json jstring
  | DataText jstring
  | Event jstring
  | Id jstring
  | Retry "int option"

text \<open>The body of \<^verbatim>\<open>for (const line of lines)\<close>: the events that one line yields.\<close>

definition parse_line :: "jstring \<Rightarrow> SSEEvent list" where
  "parse_line line =
     (if trim line = [] then []
      else if startsWith line (js '':'') then []
      else
        (case indexOf line (js '':'') of
           None \<Rightarrow> []
         | Some colonIndex \<Rightarrow>
             (let field = trim (take colonIndex line);
                  value = trim (drop (colonIndex + 1) line)
              in if field = js ''data'' then
                   (case JSON_parse value of
                      Some data \<Rightarrow> [DataJson data value]
                    | None \<Rightarrow> [DataText value])
                 else if field = js ''event'' then [Event value]
                 else if field = js ''id'' then [Id value]
                 else if field = js ''retry'' then [Retry (parseInt value)]
                 else [])))"

text \<open>What \<^verbatim>\<open>reader.read()\<close> gives before the stream is done: bytes, or an exception.\<close>

datatype read_result = Chunk "byte list" | ReadFails

text \<open>
  The \<^verbatim>\<open>while (true)\<close> of \<^verbatim>\<open>iterEvents\<close>, from the given \<^verbatim>\<open>buffer\<close> and decoder state
  on: the events yielded, and the exception that ends the generator, if any. The list of
  reads ends where the stream is done.
\<close>

fun iterEvents_loop ::
  "jstring \<Rightarrow> utf8_state \<Rightarrow> read_result list \<Rightarrow> SSEEvent list \<times> js_error option" where
  "iterEvents_loop buffer st [] = ([], None)"
| "iterEvents_loop buffer st (ReadFails # rs) = ([], Some ReadError)"
| "iterEvents_loop buffer st (Chunk value # rs) =
     (let (text, st') = decode st value;
          lines = split (buffer @ text) [10];
          (evs, err) = iterEvents_loop (last lines) st' rs
      in (concat (map parse_line (butlast lines)) @ evs, err))"

definition iterEvents :: "read_result list \<Rightarrow> SSEEvent list \<times> js_error option" where
  "iterEvents rs = iterEvents_loop [] utf8_init rs"

section \<open>Upstream frames and response chunks\<close>

type_synonym number = "int \<times> int"

record upstream_error =
  detail :: jstring
  code :: number

record usage =
  prompt_tokens :: number
  completion_tokens :: number
  total_tokens :: number

record upstream_data_inner =
  inner_error :: "upstream_error option"

record upstream_data_data =
  delta_content :: jstring
  edit_content :: jstring
  phase :: jstring
  is_done :: bool
  data_usage :: "usage option"
  data_error :: "upstream_error option"
  inner :: "upstream_data_inner option"

record upstream_data =
  frame_type :: jstring
  data :: upstream_data_data
  error :: "upstream_error option"

record delta =
  role :: "jstring option"
  content :: "jstring option"
  reasoning_content :: "jstring option"
  tool_calls :: "json list option"

definition empty_delta :: delta where
  "empty_delta = \<lparr>role = None, content = None, reasoning_content = None, tool_calls = None\<rparr>"

text \<open>
  A chunk as \<^verbatim>\<open>createOpenAIResponseChunk\<close> builds it, without \<^verbatim>\<open>id\<close> and \<^verbatim>\<open>created\<close>,
  which are read from the clock, and without the constant \<^verbatim>\<open>object\<close> and \<^verbatim>\<open>index\<close>.
\<close>

record chunk =
  model :: jstring
  chunk_delta :: delta
  finish_reason :: "jstring option"

definition createOpenAIResponseChunk :: "jstring \<Rightarrow> delta option \<Rightarrow> jstring option \<Rightarrow> chunk" where
  "createOpenAIResponseChunk m d finishReason =
     \<lparr>model = m, chunk_delta = (case d of Some x \<Rightarrow> x | None \<Rightarrow> empty_delta),
      finish_reason = finishReason\<rparr>"

text \<open>
  What the stream handler yields: \<open>Data c\<close> is the line
  \<^verbatim>\<open>data: ${JSON.stringify(c)}\n\n\<close>, \<open>DONE\<close> is \<^verbatim>\<open>data: [DONE]\n\n\<close>, and \<open>Raw\<close> is a
  line given as a literal.
\<close>

datatype line = Data chunk | DONE | Raw jstring

text \<open>\<^verbatim>\<open>handleUpstreamError(error)\<close>; the error is only logged.\<close>

definition handleUpstreamError :: "config \<Rightarrow> upstream_error \<Rightarrow> line list" where
  "handleUpstreamError cfg err =
     [Data (createOpenAIResponseChunk (PRIMARY_MODEL cfg) None (Some (js ''stop''))), DONE]"

section \<open>\<^verbatim>\<open>StreamResponseHandler\<close>\<close>

text \<open>
  The fields of the handler that the translation reads and writes. \<open>model_name\<close> is
  \<^verbatim>\<open>getModelConfig(this.upstreamReq.model).name\<close>, which does not change during a request.
\<close>

record stream_handler =
  hasTools :: bool
  model_name :: jstring
  bufferedContent :: jstring
  toolCalls :: "json list option"
  streamEnded :: bool

definition new_stream_handler :: "jstring \<Rightarrow> bool \<Rightarrow> stream_handler" where
  "new_stream_handler name tools =
     \<lparr>hasTools = tools, model_name = name, bufferedContent = [], toolCalls = None,
      streamEnded = False\<rparr>"

definition hasError :: "upstream_data \<Rightarrow> bool" where
  "hasError upstreamData \<longleftrightarrow>
     error upstreamData \<noteq> None \<or> data_error (data upstreamData) \<noteq> None \<or>
     (case inner (data upstreamData) of None \<Rightarrow> False | Some i \<Rightarrow> inner_error i \<noteq> None)"

text \<open>\<^verbatim>\<open>_getError\<close>; \<open>None\<close> is \<^verbatim>\<open>null\<close>.\<close>

definition getError :: "upstream_data \<Rightarrow> upstream_error option" where
  "getError upstreamData =
     (case error upstreamData of
        Some e \<Rightarrow> Some e
      | None \<Rightarrow>
          (case data_error (data upstreamData) of
             Some e \<Rightarrow> Some e
           | None \<Rightarrow>
               (case inner (data upstreamData) of
                  None \<Rightarrow> None
                | Some i \<Rightarrow> inner_error i)))"

text \<open>\<^verbatim>\<open>_extractEditContent\<close>: \<^verbatim>\<open>parts[1]\<close> when there is more than one part.\<close>

definition extractEditContent :: "jstring \<Rightarrow> jstring" where
  "extractEditContent editContent =
     (let parts = split editContent (js ''</details>'')
      in if 1 < length parts then parts ! 1 else [])"

text \<open>
  \<^verbatim>\<open>_processContent(upstreamData, sentInitialAnswer)\<close>: the lines yielded and the handler
  afterwards. The parameter \<^verbatim>\<open>sentInitialAnswer\<close> is a boolean passed by value; the
  assignment to it in the body changes the parameter only, which is not read again, so
  nothing of it is returned.
\<close>

definition processContent ::
  "config \<Rightarrow> stream_handler \<Rightarrow> upstream_data \<Rightarrow> bool \<Rightarrow> line list \<times> stream_handler" where
  "processContent cfg h upstreamData sentInitialAnswer =
    (let d = data upstreamData;
         content = (if delta_content d \<noteq> [] then delta_content d else edit_content d)
     in if content = [] then ([], h)
        else
          (let processedContent =
                 (if phase d = js ''thinking''
                  then transformThinkingContent (THINKING_PROCESSING cfg) content
                  else content)
           in if hasTools h then
                ([], h\<lparr>bufferedContent := bufferedContent h @ processedContent\<rparr>)
              else
                (let initial =
                       (if \<not> sentInitialAnswer \<and> edit_content d \<noteq> [] \<and> phase d = js ''answer''
                        then
                          (let extractedContent = extractEditContent (edit_content d)
                           in if extractedContent \<noteq> [] then
                                [Data (createOpenAIResponseChunk (model_name h)
                                   (Some (empty_delta\<lparr>content := Some extractedContent\<rparr>)) None)]
                              else [])
                        else []);
                     rest =
                       (if delta_content d \<noteq> [] \<and> processedContent \<noteq> [] then
                          (if phase d = js ''thinking'' then
                             [Data (createOpenAIResponseChunk (model_name h)
                                (Some (empty_delta\<lparr>reasoning_content := Some processedContent\<rparr>))
                                None)]
                           else
                             [Data (createOpenAIResponseChunk (model_name h)
                                (Some (empty_delta\<lparr>content := Some processedContent\<rparr>)) None)])
                        else [])
                 in (initial @ rest, h))))"

text \<open>
  \<^verbatim>\<open>toolCallDelta\<close> as \<^verbatim>\<open>JSON.stringify\<close> writes it: a member whose value is
  \<^verbatim>\<open>undefined\<close> is left out.
\<close>

definition toolCallDelta :: "nat \<Rightarrow> json \<Rightarrow> json" where
  "toolCallDelta i tc =
     JObj ([(js ''index'', JNum (int i) 0)] @
           (case get_prop tc (js ''id'') of None \<Rightarrow> [] | Some v \<Rightarrow> [(js ''id'', v)]) @
           [(js ''type'',
               (case get_prop tc (js ''type'') of
                  None \<Rightarrow> JStr (js ''function'')
                | Some v \<Rightarrow> if truthy v then v else JStr (js ''function''))),
            (js ''function'',
               (case get_prop tc (js ''function'') of
                  None \<Rightarrow> JObj []
                | Some v \<Rightarrow> if truthy v then v else JObj []))])"

text \<open>
  \<^verbatim>\<open>_sendEndChunk()\<close>: the lines yielded, the handler afterwards, and the exception that
  leaves the generator, if any. The second argument is \<^verbatim>\<open>Date.now()\<close>.
\<close>

definition sendEndChunk ::
  "config \<Rightarrow> int \<Rightarrow> stream_handler \<Rightarrow> line list \<times> stream_handler \<times> js_error option" where
  "sendEndChunk cfg now h =
    (if streamEnded h then ([], h, None)
     else
       (let final = (\<lambda>finishReason.
              [Data (createOpenAIResponseChunk (model_name h) None (Some finishReason)), DONE])
        in if hasTools h then
             (case extractToolInvocations cfg now (bufferedContent h) of
                Inl e \<Rightarrow> ([], h, Some e)
              | Inr (Some tcs) \<Rightarrow>
                  (map (\<lambda>(i, tc).
                      Data (createOpenAIResponseChunk (model_name h)
                        (Some (empty_delta\<lparr>tool_calls := Some [toolCallDelta i tc]\<rparr>)) None))
                     (enumerate 0 tcs)
                   @ final (js ''tool_calls''),
                   h\<lparr>toolCalls := Some tcs, streamEnded := True\<rparr>, None)
              | Inr None \<Rightarrow>
                  (let trimmedContent = removeToolJsonContent (bufferedContent h)
                   in ((if trimmedContent \<noteq> [] then
                          [Data (createOpenAIResponseChunk (model_name h)
                             (Some (empty_delta\<lparr>content := Some trimmedContent\<rparr>)) None)]
                        else [])
                       @ final (js ''stop''),
                       h\<lparr>toolCalls := None, streamEnded := True\<rparr>, None)))
           else (final (js ''stop''), h\<lparr>streamEnded := True\<rparr>, None)))"

text \<open>
  What the loop over \<^verbatim>\<open>parser.iterJsonData(...)\<close> gets: a validated frame, or the
  exception with which the iteration fails. The list ends where the upstream body ends.
\<close>

datatype stream_item = Frame upstream_data | Fails

text \<open>
  The \<^verbatim>\<open>for await\<close> of \<^verbatim>\<open>handle\<close>: the lines yielded, the handler afterwards, and the
  exception that reaches the \<^verbatim>\<open>catch\<close>, if any. \<^verbatim>\<open>sentInitialAnswer\<close> is the variable of
  \<^verbatim>\<open>handle\<close>, which no statement of \<^verbatim>\<open>handle\<close> assigns after its declaration.
\<close>

fun handle_loop ::
  "config \<Rightarrow> int \<Rightarrow> bool \<Rightarrow> stream_handler \<Rightarrow> stream_item list
     \<Rightarrow> line list \<times> stream_handler \<times> js_error option" where
  "handle_loop cfg now sentInitialAnswer h [] = ([], h, None)"
| "handle_loop cfg now sentInitialAnswer h (Fails # items) = ([], h, Some ReadError)"
| "handle_loop cfg now sentInitialAnswer h (Frame upstreamData # items) =
     (if hasError upstreamData then
        (if \<not> streamEnded h
         then (handleUpstreamError cfg (the (getError upstreamData)),
               h\<lparr>streamEnded := True\<rparr>, None)
         else ([], h, None))
      else
        (let (out1, h1) = processContent cfg h upstreamData sentInitialAnswer
         in if (is_done (data upstreamData) \<or> phase (data upstreamData) = js ''done'')
               \<and> \<not> streamEnded h1
            then
              (case sendEndChunk cfg now h1 of
                 (out2, h2, None) \<Rightarrow> (out1 @ out2, h2\<lparr>streamEnded := True\<rparr>, None)
               | (out2, h2, Some e) \<Rightarrow> (out1 @ out2, h2, Some e))
            else
              (let (out2, h2, e) = handle_loop cfg now sentInitialAnswer h1 items
               in (out1 @ out2, h2, e))))"

text \<open>The upstream call: it fails, it answers with an error status, or it answers with a
  body.\<close>

datatype upstream = CallFails | NotOk | Ok "stream_item list"

text \<open>\<^verbatim>\<open>StreamResponseHandler.handle()\<close>: all the lines yielded, and the handler in the end.\<close>

definition handle ::
  "config \<Rightarrow> int \<Rightarrow> stream_handler \<Rightarrow> upstream \<Rightarrow> line list \<times> stream_handler" where
  \<open>handle cfg now h response =
     (case response of
        CallFails \<Rightarrow> ([Raw (js ''data: {"error": "Failed to call upstream"}'' @ [10, 10])], h)
      | NotOk \<Rightarrow> ([Raw (js ''data: {"error": "Upstream error"}'' @ [10, 10])], h)
      | Ok items \<Rightarrow>
          (let firstChunk = createOpenAIResponseChunk (model_name h)
                 (Some (empty_delta\<lparr>role := Some (js ''assistant'')\<rparr>)) None;
               (out1, h1, thrown) = handle_loop cfg now False h items;
               (out2, h2) =
                 (if thrown \<noteq> None \<and> \<not> streamEnded h1 then
                    ([Data (createOpenAIResponseChunk (model_name h1) None (Some (js ''stop''))),
                      DONE],
                     h1\<lparr>streamEnded := True\<rparr>)
                  else ([], h1))
           in (Data firstChunk # out1 @ out2, h2\<lparr>streamEnded := True\<rparr>)))\<close>

section \<open>\<^verbatim>\<open>NonStreamResponseHandler\<close>\<close>

text \<open>
  The \<^verbatim>\<open>for await\<close> that collects \<^verbatim>\<open>fullContent\<close>: the parts pushed, and the exception
  that leaves \<^verbatim>\<open>handle\<close>, if any.
\<close>

fun collect :: "config \<Rightarrow> stream_item list \<Rightarrow> jstring list \<times> js_error option" where
  "collect cfg [] = ([], None)"
| "collect cfg (Fails # items) = ([], Some ReadError)"
| "collect cfg (Frame upstreamData # items) =
     (let d = data upstreamData;
          pushed =
            (if delta_content d \<noteq> [] then
               (let content =
                      (if phase d = js ''thinking''
                       then transformThinkingContent (THINKING_PROCESSING cfg) (delta_content d)
                       else delta_content d)
                in if content \<noteq> [] then [content] else [])
             else [])
      in if is_done d \<or> phase d = js ''done'' then (pushed, None)
         else (let (more, e) = collect cfg items in (pushed @ more, e)))"

text \<open>The message of the response object, with its finish reason.\<close>

record completion =
  completion_model :: jstring
  message_content :: "jstring option"
  message_tool_calls :: "json list option"
  completion_finish_reason :: jstring

text \<open>A \<^verbatim>\<open>Response\<close>: an error body with status 502, or the completion with status 200.\<close>

datatype response = BadGateway jstring | Completion completion

text \<open>
  \<^verbatim>\<open>NonStreamResponseHandler.handle()\<close>, for a handler with the given model name and
  \<^verbatim>\<open>hasTools\<close>: the response, or the exception with which the promise is rejected.
\<close>

definition nonstream_handle ::
  "config \<Rightarrow> int \<Rightarrow> jstring \<Rightarrow> bool \<Rightarrow> upstream \<Rightarrow> js_error + response" where
  "nonstream_handle cfg now name tools response =
     (case response of
        CallFails \<Rightarrow> Inr (BadGateway (js ''Failed to call upstream''))
      | NotOk \<Rightarrow> Inr (BadGateway (js ''Upstream error''))
      | Ok items \<Rightarrow>
          (case collect cfg items of
             (fullContent, Some e) \<Rightarrow> Inl e
           | (fullContent, None) \<Rightarrow>
               (let finalContent = concat fullContent in
                if tools then
                  (case extractToolInvocations cfg now finalContent of
                     Inl e \<Rightarrow> Inl e
                   | Inr (Some tcs) \<Rightarrow>
                       Inr (Completion
                         \<lparr>completion_model = name, message_content = None,
                          message_tool_calls = Some tcs,
                          completion_finish_reason = js ''tool_calls''\<rparr>)
                   | Inr None \<Rightarrow>
                       (let messageContent = removeToolJsonContent finalContent in
                        Inr (Completion
                          \<lparr>completion_model = name,
                           message_content =
                             Some (if messageContent = [] then finalContent else messageContent),
                           message_tool_calls = None,
                           completion_finish_reason = js ''stop''\<rparr>)))
                else
                  Inr (Completion
                    \<lparr>completion_model = name, message_content = Some finalContent,
                     message_tool_calls = None, completion_finish_reason = js ''stop''\<rparr>))))"

section \<open>Terminal conditions\<close>

text \<open>A frame on which \<^verbatim>\<open>handle\<close> leaves its loop: it carries an error, or it is done.\<close>

definition ends_response :: "upstream_data \<Rightarrow> bool" where
  "ends_response f \<longleftrightarrow>
     hasError f \<or> is_done (data f) \<or> phase (data f) = js ''done''"

text \<open>An item that ends the loop: such a frame, or a failure of the iteration.\<close>

fun ends_loop :: "stream_item \<Rightarrow> bool" where
  "ends_loop Fails = True"
| "ends_loop (Frame f) = ends_response f"

text \<open>The lines of a terminal sequence: a chunk with a finish reason, and the end marker.\<close>

fun is_terminal_line :: "line \<Rightarrow> bool" where
  "is_terminal_line DONE = True"
| "is_terminal_line (Data c) = (finish_reason c \<noteq> None)"
| "is_terminal_line (Raw t) = False"

section \<open>Sample inputs\<close>

definition sample_config :: config where
  "sample_config =
     \<lparr>SCAN_LIMIT = 200000, THINKING_PROCESSING = js ''think'', PRIMARY_MODEL = js ''GLM-4.6''\<rparr>"

text \<open>A frame without errors, as \<^verbatim>\<open>UpstreamDataSchema.parse\<close> returns it.\<close>

definition sample_frame :: "jstring \<Rightarrow> jstring \<Rightarrow> jstring \<Rightarrow> bool \<Rightarrow> upstream_data" where
  "sample_frame ph dc ec dn =
     \<lparr>frame_type = js ''chat:completion'',
      data = \<lparr>delta_content = dc, edit_content = ec, phase = ph, is_done = dn,
              data_usage = None, data_error = None, inner = None\<rparr>,
      error = None\<rparr>"

definition sample_error :: upstream_error where
  "sample_error = \<lparr>detail = js ''rate limited'', code = (429, 0)\<rparr>"

section \<open>Spans that the stripping deletes\<close>

text \<open>
  The text starts with a span that step 2 of \<^verbatim>\<open>removeToolJsonContent\<close> deletes: an opening
  brace, balanced by the bracket balance, whose text parses to an object with the key
  \<^verbatim>\<open>tool_calls\<close>.
\<close>

definition keyed_candidate :: "jstring \<Rightarrow> bool" where
  "keyed_candidate s =
     (case s of
        [] \<Rightarrow> False
      | c # cs \<Rightarrow>
          c = 123 \<and>
          (case balance 1 False False cs of
             None \<Rightarrow> False
           | Some k \<Rightarrow> has_tool_calls (c # take k cs)))"

text \<open>Such a span starts somewhere in the text.\<close>

fun any_keyed :: "jstring \<Rightarrow> bool" where
  "any_keyed [] = False"
| "any_keyed (c # cs) = (keyed_candidate (c # cs) \<or> any_keyed cs)"

text \<open>The number of opening braces of a text.\<close>

definition braces :: "jstring \<Rightarrow> nat" where
  "braces s = length (filter (\<lambda>c. c = 123) s)"

text \<open>
  The pieces of a text between the occurrences of one character, by recursion on the
  text; this is \<open>split s [c]\<close>.
\<close>

fun pieces :: "jchar \<Rightarrow> jstring \<Rightarrow> jstring list" where
  "pieces c [] = [[]]"
| "pieces c (x # xs) =
     (if x = c then [] # pieces c xs
      else (x # hd (pieces c xs)) # tl (pieces c xs))"


section \<open>The texts that the extraction tries\<close>

text \<open>
  The brace-balanced spans of a text as attempt 2 finds them, from the left: at every
  opening brace, the span up to the brace that balances it.
\<close>

fun spans :: "jstring \<Rightarrow> jstring list" where
  "spans [] = []"
| "spans (c # cs) =
     (if c = 123 then
        (case balance 1 False False cs of
           None \<Rightarrow> spans cs
         | Some k \<Rightarrow> (c # take k cs) # spans cs)
      else spans cs)"

text \<open>
  The texts that attempts 1 and 2 parse, in the order in which they come to them: group 1
  of every match of the fence pattern, then the brace-balanced spans.
\<close>

definition candidates :: "jstring \<Rightarrow> jstring list" where
  "candidates s = map snd (matches re_fence s) @ spans s"

section \<open>A text cut into what the stripping keeps and what it removes\<close>

text \<open>
  A text cut into parts: a character that is kept, or a span that is removed. \<open>whole\<close> is
  the text that was cut, \<open>kept\<close> the text without the spans.
\<close>

datatype part = Kept jchar | Removed jstring

fun whole :: "part list \<Rightarrow> jstring" where
  "whole [] = []"
| "whole (Kept c # ps) = c # whole ps"
| "whole (Removed d # ps) = d @ whole ps"

fun kept :: "part list \<Rightarrow> jstring" where
  "kept [] = []"
| "kept (Kept c # ps) = c # kept ps"
| "kept (Removed d # ps) = kept ps"

text \<open>
  A tool-call span, as the stripping understands it: from an opening brace to the brace
  that balances it, and parsing to an object with the key \<^verbatim>\<open>tool_calls\<close>.
\<close>

definition tool_span :: "jstring \<Rightarrow> bool" where
  "tool_span d =
     (case d of
        [] \<Rightarrow> False
      | c # cs \<Rightarrow> c = 123 \<and> balance 1 False False cs = Some (length cs) \<and> has_tool_calls d)"

section \<open>Thinking content made of markers\<close>

text \<open>
  The pieces of a thinking content in which the markers that \<^verbatim>\<open>transformThinkingContent\<close>
  looks for stand apart from each other: a character other than \<^verbatim>\<open><\<close> and \<^verbatim>\<open>>\<close>, a
  run of text that holds no marker, a summary region, one of the tags, and the quote
  prefix \<^verbatim>\<open>> \<close> of a line.
\<close>

datatype token =
    Plain jchar
  | Text jstring
  | Summary jstring
  | ThinkingClose
  | FullOpen
  | FullClose
  | Details jstring
  | DetailsClose
  | Quote

text \<open>The text of a piece in the input.\<close>

fun source :: "token \<Rightarrow> jstring" where
  "source (Plain c) = [c]"
| "source (Text g) = g"
| "source (Summary s) = js ''<summary>'' @ s @ js ''</summary>''"
| "source ThinkingClose = js ''</thinking>''"
| "source FullOpen = js ''<Full>''"
| "source FullClose = js ''</Full>''"
| "source (Details a) = js ''<details'' @ a @ js ''>''"
| "source DetailsClose = js ''</details>''"
| "source Quote = js ''> ''"

text \<open>
  What is to be left of a piece under a display mode: a character and a run stay, the
  \<^verbatim>\<open>details\<close> tags become \<^verbatim>\<open>span\<close> tags (\<^verbatim>\<open>think\<close>), go (\<^verbatim>\<open>strip\<close>) or stay (any other
  mode), and everything else goes.
\<close>

fun shown :: "jstring \<Rightarrow> token \<Rightarrow> jstring" where
  "shown mode (Plain c) = [c]"
| "shown mode (Text g) = g"
| "shown mode (Details a) =
     (if mode = js ''think'' then js ''<span>''
      else if mode = js ''strip'' then [] else js ''<details'' @ a @ js ''>'')"
| "shown mode DetailsClose =
     (if mode = js ''think'' then js ''</span>''
      else if mode = js ''strip'' then [] else js ''</details>'')"
| "shown mode t = []"

text \<open>
  The text of a piece after the first \<open>n\<close> of the seven replacements that change a text
  of such pieces: the summary regions, \<^verbatim>\<open></thinking>\<close>, \<^verbatim>\<open><Full>\<close>, \<^verbatim>\<open></Full>\<close>, the opening
  and the closing \<^verbatim>\<open>details\<close> tags, the quote prefixes.
\<close>

fun stage :: "nat \<Rightarrow> jstring \<Rightarrow> token \<Rightarrow> jstring" where
  "stage n mode (Plain c) = [c]"
| "stage n mode (Text g) = g"
| "stage n mode (Summary s) = (if n < 1 then source (Summary s) else [])"
| "stage n mode ThinkingClose = (if n < 2 then source ThinkingClose else [])"
| "stage n mode FullOpen = (if n < 3 then source FullOpen else [])"
| "stage n mode FullClose = (if n < 4 then source FullClose else [])"
| "stage n mode (Details a) = (if n < 5 then source (Details a) else shown mode (Details a))"
| "stage n mode DetailsClose = (if n < 6 then source DetailsClose else shown mode DetailsClose)"
| "stage n mode Quote = (if n < 7 then source Quote else [])"

text \<open>The patterns of the first six replacements, as far as they are literal.\<close>

definition tags :: "jstring list" where
  "tags = [js ''<summary>'', js ''</thinking>'', js ''<Full>'', js ''</Full>'', js ''<details'',
           js ''</details>'']"

text \<open>Two texts differ at a position that both have.\<close>

fun differs :: "jstring \<Rightarrow> jstring \<Rightarrow> bool" where
  "differs (x # xs) (y # ys) = (x \<noteq> y \<or> differs xs ys)"
| "differs xs ys = False"

text \<open>
  The position behind a character \<open>p\<close> (or at the start of the text, \<open>None\<close>) starts a
  line; and a text, standing behind \<open>p\<close>, in which no \<^verbatim>\<open>>\<close> starts a line.
\<close>

definition line_start :: "jchar option \<Rightarrow> bool" where
  "line_start p = (case p of None \<Rightarrow> True | Some d \<Rightarrow> is_line_terminator d)"

fun calm :: "jchar option \<Rightarrow> jstring \<Rightarrow> bool" where
  "calm p [] = True"
| "calm p (c # cs) = ((c = 62 \<longrightarrow> \<not> line_start p) \<and> calm (Some c) cs)"

text \<open>
  A piece stands apart: a plain character is neither \<^verbatim>\<open><\<close> nor \<^verbatim>\<open>>\<close>, the content of a
  summary region has no \<^verbatim>\<open><\<close>, and the attributes of a \<^verbatim>\<open>details\<close> tag have no \<^verbatim>\<open><\<close>, no
  \<^verbatim>\<open>>\<close> and no line terminator. A run of text begins and ends with a character that is
  not white space; only its first character may be \<^verbatim>\<open><\<close>, and then the run differs from
  each of the patterns; it does not begin with \<^verbatim>\<open>>\<close>, and none of its \<^verbatim>\<open>>\<close> follows a line
  terminator.
\<close>

fun token_ok :: "token \<Rightarrow> bool" where
  "token_ok (Plain c) = (c \<noteq> 60 \<and> c \<noteq> 62)"
| "token_ok (Text g) =
     (g \<noteq> [] \<and> \<not> is_ws (hd g) \<and> \<not> is_ws (last g) \<and> hd g \<noteq> 62 \<and> 60 \<notin> set (tl g) \<and>
      (hd g = 60 \<longrightarrow> list_all (differs g) tags) \<and> calm (Some (hd g)) (tl g))"
| "token_ok (Summary s) = list_all (\<lambda>c. c \<noteq> 60) s"
| "token_ok (Details a) = list_all (\<lambda>c. c \<noteq> 60 \<and> c \<noteq> 62 \<and> \<not> is_line_terminator c) a"
| "token_ok t = True"

text \<open>
  Every quote prefix starts a line: it is the first piece, or the piece before it is a
  line terminator. The flag tells whether a quote prefix may come next.
\<close>

fun quotes_ok :: "bool \<Rightarrow> token list \<Rightarrow> bool" where
  "quotes_ok b [] = True"
| "quotes_ok b (t # ts) =
     ((t = Quote \<longrightarrow> b) \<and>
      quotes_ok (case t of Plain c \<Rightarrow> is_line_terminator c | _ \<Rightarrow> False) ts)"

text \<open>
  The pieces of which the first \<^verbatim>\<open>trim\<close> sees white space or nothing: white space, and
  what the replacements before it have deleted.
\<close>

fun passed_over :: "token \<Rightarrow> bool" where
  "passed_over (Plain c) = is_ws c"
| "passed_over (Text g) = False"
| "passed_over (Details a) = False"
| "passed_over DetailsClose = False"
| "passed_over Quote = False"
| "passed_over t = True"

text \<open>The text does not end with a quote prefix that only such pieces follow.\<close>

definition no_trailing_quote :: "token list \<Rightarrow> bool" where
  "no_trailing_quote ts =
     (case dropWhile passed_over (rev ts) of Quote # us \<Rightarrow> False | _ \<Rightarrow> True)"

definition well_formed :: "token list \<Rightarrow> bool" where
  "well_formed ts \<longleftrightarrow> list_all token_ok ts \<and> quotes_ok True ts \<and> no_trailing_quote ts"

text \<open>
  A text in which an expression matches nowhere, whatever follows the text, and a text
  that the expression matches as a whole, whatever follows.
\<close>

definition inert_in :: "unit matcher \<Rightarrow> jstring \<Rightarrow> bool" where
  "inert_in m g \<longleftrightarrow> (\<forall>k1 c k2 R. g = k1 @ c # k2 \<longrightarrow> m None (c # k2 @ R) = None)"

definition hit_in :: "unit matcher \<Rightarrow> jstring \<Rightarrow> bool" where
  "hit_in m g \<longleftrightarrow> g \<noteq> [] \<and> (\<forall>R. m None (g @ R) = Some (length g, ()))"

text \<open>
  A text in which a pattern that starts with \<^verbatim>\<open><\<close> cannot start: it has no \<^verbatim>\<open><\<close>, or only
  its first character is one and it differs from the pattern.
\<close>

definition safe :: "jstring \<Rightarrow> jstring \<Rightarrow> bool" where
  "safe P g \<longleftrightarrow> 60 \<notin> set g \<or> (hd g = 60 \<and> 60 \<notin> set (tl g) \<and> differs g P)"

text \<open>The character before what follows a text, and a text that is calm wherever it stands.\<close>

definition after :: "jchar option \<Rightarrow> jstring \<Rightarrow> jchar option" where
  "after p g = (if g = [] then p else Some (last g))"

definition quiet :: "jstring \<Rightarrow> bool" where
  "quiet g \<longleftrightarrow> (\<forall>p. calm p g)"

text \<open>
  The pieces that \<^verbatim>\<open>trim\<close> removes from a text written with \<open>r\<close>, and the pieces that it
  leaves.
\<close>

definition blank :: "(token \<Rightarrow> jstring) \<Rightarrow> token \<Rightarrow> bool" where
  "blank r t = list_all is_ws (r t)"

definition core :: "(token \<Rightarrow> jstring) \<Rightarrow> token list \<Rightarrow> token list" where
  "core r ts = rev (dropWhile (blank r) (rev (dropWhile (blank r) ts)))"

section \<open>Properties of strings and scans\<close>

lemma trim_idem: "trim (trim s) = trim s"
proof -
  define t where "t = dropWhile is_ws s"
  define u where "u = dropWhile is_ws (rev t)"
  have ts: "trim s = rev u" by (simp add: trim_def t_def u_def)
  have u_fix: "dropWhile is_ws u = u" by (simp add: u_def dropWhile_idem)
  have "dropWhile is_ws (rev u) = rev u"
  proof (cases u)
    case Nil then show ?thesis by simp
  next
    case (Cons a as)
    have "rev t = takeWhile is_ws (rev t) @ u" unfolding u_def by simp
    then have "rev (rev t) = rev (takeWhile is_ws (rev t) @ u)" by simp
    then have tt: "t = rev u @ rev (takeWhile is_ws (rev t))" by simp
    have ne: "rev u \<noteq> []" using Cons by simp
    then have hd_eq: "hd (rev u) = hd t" using tt by (metis hd_append2)
    have "t \<noteq> []" using tt ne by auto
    then have "\<not> is_ws (hd t)" unfolding t_def by (metis hd_dropWhile)
    with hd_eq have "\<not> is_ws (hd (rev u))" by simp
    then show ?thesis using ne by (cases "rev u") auto
  qed
  then show ?thesis unfolding ts by (simp add: trim_def u_fix)
qed

lemma scan_no_match:
  "concat (map (\<lambda>p. case p of Lit c \<Rightarrow> [] | Match x \<Rightarrow> [x]) (scan m prev s)) = []
   \<Longrightarrow> concat (map (\<lambda>p. case p of Lit c \<Rightarrow> [c] | Match x \<Rightarrow> f x) (scan m prev s)) = s"
proof (induction m prev s rule: scan.induct)
  case (1 m prev)
  then show ?case by simp
next
  case (2 m prev c cs)
  show ?case
  proof (cases "m prev (c # cs)")
    case None
    with 2 show ?thesis by simp
  next
    case (Some a)
    obtain n x where a: "a = (n, x)" by (cases a)
    show ?thesis
    proof (cases "0 < n")
      case True
      with 2(4) Some a show ?thesis by simp
    next
      case False
      with 2(3)[OF Some a[symmetric]] 2(4) Some a show ?thesis by simp
    qed
  qed
qed

lemma replace_no_match: "\<not> test m s \<Longrightarrow> replace m f s = s"
  unfolding test_def matches_def replace_def by (simp add: scan_no_match)

section \<open>The fuel of \<^verbatim>\<open>JSON.parse\<close> is enough\<close>

text \<open>
  A parse that succeeds leaves less text than it got, and succeeds with the same result
  for every bound that is at least the number of characters it reads. So \<open>JSON_parse\<close>
  fails only on a text that fails for every bound.
\<close>

lemma parse_string_shorter: "parse_string s = Some (x, r) \<Longrightarrow> length r < length s"
proof (induction s arbitrary: x r rule: parse_string.induct)
  case 1
  then show ?case by simp
next
  case (2 c cs)
  show ?case
  proof (cases "c = 34")
    case True
    with 2(4) show ?thesis by simp
  next
    case n34: False
    show ?thesis
    proof (cases "c = 92")
      case True
      show ?thesis
      proof (cases cs)
        case Nil
        with 2(4) n34 True show ?thesis by simp
      next
        case (Cons e t)
        show ?thesis
        proof (cases "e = 117")
          case u: True
          with 2(4) n34 True Cons obtain v y where
            h: "hex4 (take 4 t) = Some v" and p: "parse_string (drop 4 t) = Some (y, r)"
            by (auto split: option.splits)
          from "2.IH"(1)[OF n34 True Cons u h p] show ?thesis using Cons by simp
        next
          case nu: False
          with 2(4) n34 True Cons obtain v y where
            h: "unescape e = Some v" and p: "parse_string t = Some (y, r)"
            by (auto split: option.splits)
          from "2.IH"(2)[OF n34 True Cons nu h p] show ?thesis using Cons by simp
        qed
      qed
    next
      case n92: False
      with 2(4) n34 obtain y where c32: "\<not> c < 32" and p: "parse_string cs = Some (y, r)"
        by (auto split: if_splits)
      from "2.IH"(3)[OF n34 n92 c32 p] show ?thesis by simp
    qed
  qed
qed

lemma startsWith1_nonempty: "startsWith s [a] \<Longrightarrow> 0 < length s"
  by (cases s) auto

lemma parse_number_shorter:
  assumes "parse_number s = Some (v, r)"
  shows "length r < length s"
proof -
  define neg where "neg = startsWith s [45]"
  define s1 where "s1 = (if neg then drop 1 s else s)"
  define ip where "ip = (if startsWith s1 [48] then [48] else takeWhile is_digit s1)"
  define s2 where "s2 = drop (length ip) s1"
  define has_fr where "has_fr = startsWith s2 [46]"
  define fr where "fr = (if has_fr then takeWhile is_digit (drop 1 s2) else [])"
  define s3 where "s3 = (if has_fr then dropWhile is_digit (drop 1 s2) else s2)"
  define has_ex where "has_ex = (startsWith s3 [101] \<or> startsWith s3 [69])"
  define s4 where "s4 = drop 1 s3"
  define ex_neg where "ex_neg = startsWith s4 [45]"
  define s5 where "s5 = (if ex_neg \<or> startsWith s4 [43] then drop 1 s4 else s4)"
  define ex where "ex = takeWhile is_digit s5"
  define s6 where "s6 = (if has_ex then dropWhile is_digit s5 else s3)"
  define m where "m = digits_val (ip @ fr)"
  define e where "e = (if has_ex then (if ex_neg then - digits_val ex else digits_val ex) else 0)"
  have "parse_number s =
          (if ip = [] \<or> (has_fr \<and> fr = []) \<or> (has_ex \<and> ex = []) then None
           else Some (JNum (if neg then - m else m) (e - int (length fr)), s6))"
    unfolding parse_number_def Let_def neg_def s1_def ip_def s2_def has_fr_def fr_def s3_def
      has_ex_def s4_def ex_neg_def s5_def ex_def s6_def m_def e_def
    by (rule refl)
  with assms have ip: "ip \<noteq> []" and r: "r = s6"
    by (simp_all split: if_splits)
  have "length s1 \<le> length s" by (simp add: s1_def)
  moreover have "length ip \<le> length s1"
  proof (cases "startsWith s1 [48]")
    case True
    then show ?thesis by (cases s1) (auto simp: ip_def)
  next
    case False
    then show ?thesis using length_takeWhile_le[of is_digit s1] by (simp add: ip_def)
  qed
  moreover from ip have "0 < length ip" by simp
  ultimately have a: "length s2 < length s" unfolding s2_def length_drop by linarith
  have b: "length s3 \<le> length s2"
  proof (cases has_fr)
    case True
    then have "length s3 \<le> length (drop 1 s2)"
      using length_dropWhile_le[of is_digit "drop 1 s2"] by (simp add: s3_def)
    then show ?thesis by simp
  next
    case False
    then show ?thesis by (simp add: s3_def)
  qed
  have "length s5 \<le> length s3" by (simp add: s5_def s4_def)
  then have "length s6 \<le> length s3"
    using length_dropWhile_le[of is_digit s5] by (simp add: s6_def)
  with a b r show ?thesis by simp
qed

lemma parse_fuel:
  "(\<forall>s v r. parse_value n s = Some (v, r) \<longrightarrow>
       length r < length s \<and>
       (\<forall>n'. length s - length r \<le> n' \<longrightarrow> parse_value n' s = Some (v, r)))
   \<and> (\<forall>acc s v r. parse_elements n acc s = Some (v, r) \<longrightarrow>
       length r < length s \<and>
       (\<forall>n'. length s - length r \<le> n' \<longrightarrow> parse_elements n' acc s = Some (v, r)))
   \<and> (\<forall>acc s v r. parse_members n acc s = Some (v, r) \<longrightarrow>
       length r < length s \<and>
       (\<forall>n'. length s - length r \<le> n' \<longrightarrow> parse_members n' acc s = Some (v, r)))"
proof (induction n)
  case 0
  then show ?case by simp
next
  case (Suc n)
  note IHv = Suc.IH[THEN conjunct1, rule_format]
  note IHe = Suc.IH[THEN conjunct2, THEN conjunct1, rule_format]
  note IHm = Suc.IH[THEN conjunct2, THEN conjunct2, rule_format]
  have V: "length r < length s \<and>
       (\<forall>n'. length s - length r \<le> n' \<longrightarrow> parse_value n' s = Some (v, r))"
    if pv: "parse_value (Suc n) s = Some (v, r)" for s v r
  proof -
    obtain c t where d: "dropWhile is_json_ws s = c # t"
      using pv by (cases "dropWhile is_json_ws s") auto
    have ls: "length (c # t) \<le> length s"
      using length_dropWhile_le[of is_json_ws s] d by simp
    have step: "parse_value n' s = Some (v, r)"
      if "parse_value (Suc m) s = Some (v, r)" "n' = Suc m" for n' m
      using that by simp
    consider (obj0) "c = 123" "startsWith (dropWhile is_json_ws t) [125]"
      | (obj) "c = 123" "\<not> startsWith (dropWhile is_json_ws t) [125]"
      | (arr0) "c = 91" "startsWith (dropWhile is_json_ws t) [93]"
      | (arr) "c = 91" "\<not> startsWith (dropWhile is_json_ws t) [93]"
      | (other) "c \<noteq> 123" "c \<noteq> 91"
      by blast
    then show ?thesis
    proof cases
      case obj0
      with pv d have r: "r = drop 1 (dropWhile is_json_ws t)" and v: "v = JObj []" by auto
      have "length r < length s"
        using r ls length_dropWhile_le[of is_json_ws t] by simp
      moreover have "parse_value n' s = Some (v, r)" if "length s - length r \<le> n'" for n'
      proof -
        from that \<open>length r < length s\<close> obtain m where "n' = Suc m" by (cases n') auto
        with obj0 d r v show ?thesis by simp
      qed
      ultimately show ?thesis by blast
    next
      case arr0
      with pv d have r: "r = drop 1 (dropWhile is_json_ws t)" and v: "v = JArr []" by auto
      have "length r < length s"
        using r ls length_dropWhile_le[of is_json_ws t] by simp
      moreover have "parse_value n' s = Some (v, r)" if "length s - length r \<le> n'" for n'
      proof -
        from that \<open>length r < length s\<close> obtain m where "n' = Suc m" by (cases n') auto
        with arr0 d r v show ?thesis by simp
      qed
      ultimately show ?thesis by blast
    next
      case obj
      with pv d have pm: "parse_members n [] t = Some (v, r)" by simp
      from IHm[OF pm] have lr: "length r < length t"
        and st: "\<And>k. length t - length r \<le> k \<Longrightarrow> parse_members k [] t = Some (v, r)" by auto
      have "length r < length s" using lr ls by simp
      moreover have "parse_value n' s = Some (v, r)" if "length s - length r \<le> n'" for n'
      proof -
        from that \<open>length r < length s\<close> obtain m where m: "n' = Suc m" by (cases n') auto
        with that ls lr have "length t - length r \<le> m" by simp
        from st[OF this] obj d m show ?thesis by simp
      qed
      ultimately show ?thesis by blast
    next
      case arr
      with pv d have pe: "parse_elements n [] t = Some (v, r)" by simp
      from IHe[OF pe] have lr: "length r < length t"
        and st: "\<And>k. length t - length r \<le> k \<Longrightarrow> parse_elements k [] t = Some (v, r)" by auto
      have "length r < length s" using lr ls by simp
      moreover have "parse_value n' s = Some (v, r)" if "length s - length r \<le> n'" for n'
      proof -
        from that \<open>length r < length s\<close> obtain m where m: "n' = Suc m" by (cases n') auto
        with that ls lr have "length t - length r \<le> m" by simp
        from st[OF this] arr d m show ?thesis by simp
      qed
      ultimately show ?thesis by blast
    next
      case other
      define prim where "prim =
         (if c = 34 then map_option (apfst JStr) (parse_string t)
          else if startsWith (c # t) (js ''true'') then Some (JBool True, drop 4 (c # t))
          else if startsWith (c # t) (js ''false'') then Some (JBool False, drop 5 (c # t))
          else if startsWith (c # t) (js ''null'') then Some (JNull, drop 4 (c # t))
          else parse_number (c # t))"
      have pvm: "parse_value (Suc m) s = prim" for m
        using other d by (simp add: prim_def)
      with pv have p: "prim = Some (v, r)" by simp
      have "length r < length (c # t)"
        using p parse_string_shorter[of t] parse_number_shorter[of "c # t" v r]
        unfolding prim_def by (auto split: if_splits)
      then have "length r < length s" using ls by simp
      moreover have "parse_value n' s = Some (v, r)" if "length s - length r \<le> n'" for n'
      proof -
        from that \<open>length r < length s\<close> obtain m where m: "n' = Suc m" by (cases n') auto
        with pvm p show ?thesis by simp
      qed
      ultimately show ?thesis by blast
    qed
  qed
  have E: "length r < length s \<and>
       (\<forall>n'. length s - length r \<le> n' \<longrightarrow> parse_elements n' acc s = Some (v, r))"
    if pe: "parse_elements (Suc n) acc s = Some (v, r)" for acc s v r
  proof -
    from pe obtain v1 r1 where pv1: "parse_value n s = Some (v1, r1)"
      by (cases "parse_value n s") auto
    from pe pv1 obtain c r2 where d: "dropWhile is_json_ws r1 = c # r2"
      by (cases "dropWhile is_json_ws r1") auto
    from IHv[OF pv1] have l1: "length r1 < length s"
      and st1: "\<And>k. length s - length r1 \<le> k \<Longrightarrow> parse_value k s = Some (v1, r1)" by auto
    have l2: "length (c # r2) \<le> length r1"
      using length_dropWhile_le[of is_json_ws r1] d by simp
    from pe pv1 d consider (more) "c = 44" "parse_elements n (acc @ [v1]) r2 = Some (v, r)"
      | (last) "c = 93" "v = JArr (acc @ [v1])" "r = r2"
      by (auto split: if_splits)
    then show ?thesis
    proof cases
      case more
      from IHe[OF more(2)] have l3: "length r < length r2"
        and st3: "\<And>k. length r2 - length r \<le> k
                    \<Longrightarrow> parse_elements k (acc @ [v1]) r2 = Some (v, r)" by auto
      have lr: "length r < length s" using l1 l2 l3 by simp
      moreover have "parse_elements n' acc s = Some (v, r)" if "length s - length r \<le> n'" for n'
      proof -
        from that lr obtain m where m: "n' = Suc m" by (cases n') auto
        with that l1 l2 l3 have "length s - length r1 \<le> m" "length r2 - length r \<le> m"
          by simp_all
        with st1 st3 d more(1) m show ?thesis by simp
      qed
      ultimately show ?thesis by blast
    next
      case last
      have lr: "length r < length s" using l1 l2 last by simp
      moreover have "parse_elements n' acc s = Some (v, r)" if "length s - length r \<le> n'" for n'
      proof -
        from that lr obtain m where m: "n' = Suc m" by (cases n') auto
        with that l1 l2 last have "length s - length r1 \<le> m" by simp
        with st1 d last m show ?thesis by simp
      qed
      ultimately show ?thesis by blast
    qed
  qed
  have M: "length r < length s \<and>
       (\<forall>n'. length s - length r \<le> n' \<longrightarrow> parse_members n' acc s = Some (v, r))"
    if pm: "parse_members (Suc n) acc s = Some (v, r)" for acc s v r
  proof -
    from pm obtain q r0 where d0: "dropWhile is_json_ws s = q # r0"
      by (cases "dropWhile is_json_ws s") auto
    from pm d0 have q: "q = 34" by (auto split: if_splits)
    from pm d0 q obtain k r1 where ps: "parse_string r0 = Some (k, r1)"
      by (cases "parse_string r0") auto
    from pm d0 q ps obtain d r2 where d1: "dropWhile is_json_ws r1 = d # r2"
      by (cases "dropWhile is_json_ws r1") auto
    from pm d0 q ps d1 have dd: "d = 58" by (auto split: if_splits)
    from pm d0 q ps d1 dd obtain v1 r3 where pv1: "parse_value n r2 = Some (v1, r3)"
      by (cases "parse_value n r2") auto
    from pm d0 q ps d1 dd pv1 obtain e r4 where d3: "dropWhile is_json_ws r3 = e # r4"
      by (cases "dropWhile is_json_ws r3") auto
    have l0: "length (q # r0) \<le> length s"
      using length_dropWhile_le[of is_json_ws s] d0 by simp
    have l1: "length r1 < length r0" by (rule parse_string_shorter[OF ps])
    have l2: "length (d # r2) \<le> length r1"
      using length_dropWhile_le[of is_json_ws r1] d1 by simp
    from IHv[OF pv1] have l3: "length r3 < length r2"
      and st3: "\<And>j. length r2 - length r3 \<le> j \<Longrightarrow> parse_value j r2 = Some (v1, r3)" by auto
    have l4: "length (e # r4) \<le> length r3"
      using length_dropWhile_le[of is_json_ws r3] d3 by simp
    from pm d0 q ps d1 dd pv1 d3 consider
        (more) "e = 44" "parse_members n (obj_set acc k v1) r4 = Some (v, r)"
      | (last) "e = 125" "v = JObj (obj_set acc k v1)" "r = r4"
      by (auto split: if_splits)
    then show ?thesis
    proof cases
      case more
      from IHm[OF more(2)] have l5: "length r < length r4"
        and st5: "\<And>j. length r4 - length r \<le> j
                    \<Longrightarrow> parse_members j (obj_set acc k v1) r4 = Some (v, r)" by auto
      have lr: "length r < length s" using l0 l1 l2 l3 l4 l5 by simp
      moreover have "parse_members n' acc s = Some (v, r)" if "length s - length r \<le> n'" for n'
      proof -
        from that lr obtain m where m: "n' = Suc m" by (cases n') auto
        with that l0 l1 l2 l3 l4 l5 have "length r2 - length r3 \<le> m" "length r4 - length r \<le> m"
          by simp_all
        with st3 st5 d0 q ps d1 dd d3 more(1) m show ?thesis by simp
      qed
      ultimately show ?thesis by blast
    next
      case last
      have lr: "length r < length s" using l0 l1 l2 l3 l4 last by simp
      moreover have "parse_members n' acc s = Some (v, r)" if "length s - length r \<le> n'" for n'
      proof -
        from that lr obtain m where m: "n' = Suc m" by (cases n') auto
        with that l0 l1 l2 l3 l4 last have "length r2 - length r3 \<le> m" by simp
        with st3 d0 q ps d1 dd d3 last m show ?thesis by simp
      qed
      ultimately show ?thesis by blast
    qed
  qed
  from V E M show ?case by blast
qed

lemma JSON_parse_fuel:
  "JSON_parse s = Some v \<longleftrightarrow>
     (\<exists>n r. parse_value n s = Some (v, r) \<and> dropWhile is_json_ws r = [])"
proof
  assume "JSON_parse s = Some v"
  then have "\<exists>r. parse_value (Suc (length s)) s = Some (v, r) \<and> dropWhile is_json_ws r = []"
    unfolding JSON_parse_def
    by (cases "parse_value (Suc (length s)) s")
       (auto simp del: parse_value.simps split: if_splits)
  then show "\<exists>n r. parse_value n s = Some (v, r) \<and> dropWhile is_json_ws r = []"
    by blast
next
  assume "\<exists>n r. parse_value n s = Some (v, r) \<and> dropWhile is_json_ws r = []"
  then obtain n r where p: "parse_value n s = Some (v, r)" and w: "dropWhile is_json_ws r = []"
    by blast
  from parse_fuel[of n, THEN conjunct1, rule_format, OF p]
  have "\<And>n'. length s - length r \<le> n' \<Longrightarrow> parse_value n' s = Some (v, r)" by blast
  from this[of "Suc (length s)"]
  have "parse_value (Suc (length s)) s = Some (v, r)" by (simp del: parse_value.simps)
  with w show "JSON_parse s = Some v" by (simp add: JSON_parse_def del: parse_value.simps)
qed

section \<open>The stream handler ends a response at most once\<close>

lemma processContent_streamEnded:
  "processContent cfg h f s = (out, h') \<Longrightarrow> streamEnded h' = streamEnded h"
  by (auto simp: processContent_def Let_def split: if_splits)

lemma processContent_no_terminal:
  "processContent cfg h f s = (out, h') \<Longrightarrow> filter is_terminal_line out = []"
  by (auto simp: processContent_def Let_def createOpenAIResponseChunk_def split: if_splits)

lemma sendEndChunk_latched:
  "streamEnded h \<Longrightarrow> sendEndChunk cfg now h = ([], h, None)"
  by (simp add: sendEndChunk_def)

lemma filter_tool_chunks:
  "filter is_terminal_line
     (map (\<lambda>(i, tc). Data (createOpenAIResponseChunk m (Some d) None)) xs) = []"
  by (induction xs) (auto simp: createOpenAIResponseChunk_def)

lemma sendEndChunk_cases:
  assumes "\<not> streamEnded h" and "sendEndChunk cfg now h = (out, h', e)"
  shows "(e = None \<and> streamEnded h' \<and>
          (\<exists>pre c. out = pre @ [Data c, DONE] \<and> finish_reason c \<noteq> None
                    \<and> filter is_terminal_line pre = []))
       \<or> (e \<noteq> None \<and> h' = h \<and> out = [])"
proof (cases "hasTools h")
  case False
  with assms show ?thesis
    by (auto simp: sendEndChunk_def Let_def createOpenAIResponseChunk_def)
next
  case True
  show ?thesis
  proof (cases "extractToolInvocations cfg now (bufferedContent h)")
    case (Inl err)
    with assms True show ?thesis by (auto simp: sendEndChunk_def Let_def)
  next
    case (Inr r)
    show ?thesis
    proof (cases r)
      case None
      with assms True Inr show ?thesis
        by (auto simp: sendEndChunk_def Let_def createOpenAIResponseChunk_def)
    next
      case (Some tcs)
      let ?pre = "map (\<lambda>(i, tc).
                      Data (createOpenAIResponseChunk (model_name h)
                        (Some (empty_delta\<lparr>tool_calls := Some [toolCallDelta i tc]\<rparr>)) None))
                     (enumerate 0 tcs)"
      have "filter is_terminal_line ?pre = []"
        by (induction tcs rule: rev_induct) (auto simp: createOpenAIResponseChunk_def enumerate_append_eq)
      with assms True Inr Some show ?thesis
        by (auto simp: sendEndChunk_def Let_def createOpenAIResponseChunk_def)
    qed
  qed
qed


lemma handle_loop_shape:
  assumes "\<not> streamEnded h" and "handle_loop cfg now s h items = (out, h', e)"
  shows "if \<exists>it\<in>set items. ends_loop it
         then (e = None \<and> streamEnded h' \<and>
                (\<exists>pre c. out = pre @ [Data c, DONE] \<and> finish_reason c \<noteq> None
                          \<and> filter is_terminal_line pre = []))
              \<or> (e \<noteq> None \<and> \<not> streamEnded h' \<and> filter is_terminal_line out = [])
         else e = None \<and> \<not> streamEnded h' \<and> filter is_terminal_line out = []"
  using assms
proof (induction items arbitrary: h out h' e)
  case Nil
  then show ?case by simp
next
  case (Cons it items)
  show ?case
  proof (cases it)
    case Fails
    with Cons.prems show ?thesis by auto
  next
    case (Frame f)
    show ?thesis
    proof (cases "hasError f")
      case True
      with Cons.prems Frame show ?thesis
        by (auto simp: ends_response_def handleUpstreamError_def createOpenAIResponseChunk_def)
    next
      case noerr: False
      obtain out1 h1 where pc: "processContent cfg h f s = (out1, h1)"
        by (cases "processContent cfg h f s")
      have h1: "\<not> streamEnded h1" using processContent_streamEnded[OF pc] Cons.prems(1) by simp
      have o1: "filter is_terminal_line out1 = []" by (rule processContent_no_terminal[OF pc])
      show ?thesis
      proof (cases "is_done (data f) \<or> phase (data f) = js ''done''")
        case True
        obtain out2 h2 e2 where se: "sendEndChunk cfg now h1 = (out2, h2, e2)"
          by (cases "sendEndChunk cfg now h1") auto
        from sendEndChunk_cases[OF h1 se]
        consider (ok) pre c where "e2 = None" "streamEnded h2" "out2 = pre @ [Data c, DONE]"
              "finish_reason c \<noteq> None" "filter is_terminal_line pre = []"
          | (thrown) "e2 \<noteq> None" "h2 = h1" "out2 = []"
          by blast
        then show ?thesis
        proof cases
          case ok
          from Cons.prems(2) Frame noerr pc True h1 se ok
          have "out = (out1 @ pre) @ [Data c, DONE]" "e = None" "streamEnded h'"
            by auto
          moreover have "filter is_terminal_line (out1 @ pre) = []" using o1 ok by simp
          ultimately show ?thesis using Frame True ok(4) by (auto simp: ends_response_def)
        next
          case thrown
          from Cons.prems(2) Frame noerr pc True h1 se thrown
          have "out = out1" "e = e2" "h' = h1" by auto
          then show ?thesis using Frame True thrown h1 o1 by (auto simp: ends_response_def)
        qed
      next
        case False
        obtain out2 h2 e2 where hl: "handle_loop cfg now s h1 items = (out2, h2, e2)"
          by (cases "handle_loop cfg now s h1 items") auto
        from Cons.prems(2) Frame noerr pc False hl
        have eqs: "out = out1 @ out2" "h' = h2" "e = e2" by auto
        have ex: "(\<exists>it\<in>set (it # items). ends_loop it) = (\<exists>it\<in>set items. ends_loop it)"
          using Frame noerr False by (auto simp: ends_response_def)
        from Cons.IH[OF h1 hl] show ?thesis
          unfolding ex eqs using o1
          by (auto split: if_splits)
      qed
    qed
  qed
qed

lemma handle_loop_ended:
  "streamEnded h \<Longrightarrow> handle_loop cfg now s h items = (out, h', e)
   \<Longrightarrow> streamEnded h' \<and> filter is_terminal_line out = []"
proof (induction items arbitrary: h out h' e)
  case Nil
  then show ?case by simp
next
  case (Cons it items)
  show ?case
  proof (cases it)
    case Fails
    with Cons.prems show ?thesis by auto
  next
    case (Frame f)
    show ?thesis
    proof (cases "hasError f")
      case True
      with Cons.prems Frame show ?thesis by auto
    next
      case False
      obtain out1 h1 where pc: "processContent cfg h f s = (out1, h1)"
        by (cases "processContent cfg h f s")
      have h1: "streamEnded h1" using processContent_streamEnded[OF pc] Cons.prems(1) by simp
      have o1: "filter is_terminal_line out1 = []" by (rule processContent_no_terminal[OF pc])
      obtain out2 h2 e2 where hl: "handle_loop cfg now s h1 items = (out2, h2, e2)"
        by (cases "handle_loop cfg now s h1 items") auto
      from Cons.prems(2) Frame False pc h1 hl
      have "out = out1 @ out2" "h' = h2" by auto
      with Cons.IH[OF h1 hl] o1 show ?thesis by simp
    qed
  qed
qed

text \<open>
  C1, amended: the stream handler yields at most one terminal sequence, whatever the
  frames are. For a handler that has not ended: when some frame carries an error or is
  done, or the iteration fails, the output ends with exactly one finish-reason chunk
  followed by \<^verbatim>\<open>data: [DONE]\<close>, and no other line is terminal; when the upstream body ends
  without such a frame, the output has no terminal line at all. For a handler whose
  \<^verbatim>\<open>streamEnded\<close> is set already, no terminal line is yielded. In every case
  \<^verbatim>\<open>streamEnded\<close> is set in the end.
\<close>

theorem stream_terminal_sequence:
  "streamEnded (snd (handle cfg now h (Ok items))) \<and>
     (if streamEnded h then filter is_terminal_line (fst (handle cfg now h (Ok items))) = []
      else if \<exists>it\<in>set items. ends_loop it
      then \<exists>pre c. fst (handle cfg now h (Ok items)) = pre @ [Data c, DONE]
              \<and> finish_reason c \<noteq> None \<and> filter is_terminal_line pre = []
      else filter is_terminal_line (fst (handle cfg now h (Ok items))) = [])"
proof -
  obtain out1 h1 e where hl: "handle_loop cfg now False h items = (out1, h1, e)"
    by (cases "handle_loop cfg now False h items") auto
  let ?first = "Data (createOpenAIResponseChunk (model_name h)
                 (Some (empty_delta\<lparr>role := Some (js ''assistant'')\<rparr>)) None)"
  have first: "\<not> is_terminal_line ?first" by (simp add: createOpenAIResponseChunk_def)
  have ended: "streamEnded (snd (handle cfg now h (Ok items)))"
    by (simp add: handle_def Let_def hl)
  show ?thesis
  proof (cases "streamEnded h")
    case True
    from handle_loop_ended[OF True hl] have "streamEnded h1" "filter is_terminal_line out1 = []"
      by simp_all
    with True hl first ended show ?thesis by (simp add: handle_def Let_def)
  next
    case nend: False
    note shape = handle_loop_shape[OF nend hl]
    show ?thesis
    proof (cases "\<exists>it\<in>set items. ends_loop it")
      case False
      with shape have "e = None" "filter is_terminal_line out1 = []" by auto
      with False nend hl first show ?thesis by (simp add: handle_def Let_def)
    next
      case True
      with shape consider
          (ok) pre c where "e = None" "streamEnded h1" "out1 = pre @ [Data c, DONE]"
               "finish_reason c \<noteq> None" "filter is_terminal_line pre = []"
        | (thrown) "e \<noteq> None" "\<not> streamEnded h1" "filter is_terminal_line out1 = []"
        by auto
      then show ?thesis
      proof cases
        case ok
        have "fst (handle cfg now h (Ok items)) = (?first # pre) @ [Data c, DONE]"
          using hl ok by (simp add: handle_def Let_def)
        moreover have "filter is_terminal_line (?first # pre) = []" using first ok by simp
        ultimately show ?thesis using True nend ok(4) ended by auto
      next
        case thrown
        let ?c = "createOpenAIResponseChunk (model_name h1) None (Some (js ''stop''))"
        have "fst (handle cfg now h (Ok items)) = (?first # out1) @ [Data ?c, DONE]"
          using hl thrown by (simp add: handle_def Let_def)
        moreover have "filter is_terminal_line (?first # out1) = []" using first thrown by simp
        moreover have "finish_reason ?c \<noteq> None" by (simp add: createOpenAIResponseChunk_def)
        ultimately show ?thesis using True nend ended by auto
      qed
    qed
  qed
qed

theorem stream_terminal_sequence_witness:
  \<open>\<not> streamEnded (new_stream_handler (js ''GLM-4.5'') False) \<and>
   (\<exists>pre c.
      fst (handle sample_config 0 (new_stream_handler (js ''GLM-4.5'') False)
        (Ok [Frame (sample_frame (js ''answer'') (js ''hi'') [] True),
             Frame (sample_frame (js ''done'') [] [] True),
             Frame ((sample_frame (js ''answer'') [] [] False)\<lparr>error := Some sample_error\<rparr>),
             Fails])) = pre @ [Data c, DONE]
      \<and> finish_reason c \<noteq> None \<and> filter is_terminal_line pre = [])\<close>
proof -
  let ?items = \<open>[Frame (sample_frame (js ''answer'') (js ''hi'') [] True),
             Frame (sample_frame (js ''done'') [] [] True),
             Frame ((sample_frame (js ''answer'') [] [] False)\<lparr>error := Some sample_error\<rparr>),
             Fails]\<close>
  have h: \<open>\<not> streamEnded (new_stream_handler (js ''GLM-4.5'') False)\<close>
    by (simp add: new_stream_handler_def)
  have e: \<open>(\<exists>it\<in>set ?items. ends_loop it) = True\<close>
    by simp
  from stream_terminal_sequence [of sample_config 0 \<open>new_stream_handler (js ''GLM-4.5'') False\<close> ?items]
  show ?thesis unfolding e if_True using h by auto
qed

text \<open>
  C1, as stated: every frame sequence gives exactly one terminal sequence. This fails when
  the upstream body ends without a frame that is done: the output is the role chunk and
  the content, and no finish-reason chunk or \<^verbatim>\<open>data: [DONE]\<close> follows.
\<close>

theorem stream_without_terminal_frame:
  \<open>filter is_terminal_line
     (fst (handle sample_config 0 (new_stream_handler (js ''GLM-4.5'') False)
        (Ok [Frame (sample_frame (js ''answer'') (js ''hi'') [] False)]))) = []\<close>
  by code_simp

section \<open>An upstream error ends the stream\<close>

text \<open>
  C8: when the loop reaches a frame that carries an error (the frames before it neither
  carry an error nor are done), the output is what the earlier frames gave, followed by a
  chunk with finish reason \<^verbatim>\<open>stop\<close> and by \<^verbatim>\<open>data: [DONE]\<close>; the frames behind it
  contribute nothing, and \<^verbatim>\<open>streamEnded\<close> is set. The error reported is the outer one
  when there is one, else \<^verbatim>\<open>data.error\<close>, else \<^verbatim>\<open>data.inner.error\<close>. The chunk has the
  primary model's name, an empty delta and the finish reason \<^verbatim>\<open>stop\<close>.
\<close>

theorem upstream_error_ends_stream:
  assumes "hasError f" and "\<not> streamEnded h" and "\<forall>p\<in>set pre. \<not> ends_response p"
  shows "fst (handle cfg now h (Ok (map Frame pre @ Frame f # rest)))
           = fst (handle cfg now h (Ok (map Frame pre)))
             @ [Data (createOpenAIResponseChunk (PRIMARY_MODEL cfg) None (Some (js ''stop''))), DONE]
         \<and> streamEnded (snd (handle cfg now h (Ok (map Frame pre @ Frame f # rest))))
         \<and> getError f \<noteq> None
         \<and> (\<forall>e. error f = Some e \<longrightarrow> getError f = Some e)
         \<and> (\<forall>e. error f = None \<and> data_error (data f) = Some e \<longrightarrow> getError f = Some e)
         \<and> createOpenAIResponseChunk (PRIMARY_MODEL cfg) None (Some (js ''stop''))
             = \<lparr>model = PRIMARY_MODEL cfg, chunk_delta = empty_delta,
                finish_reason = Some (js ''stop'')\<rparr>"
proof -
  have loop: "\<exists>out1 h1. handle_loop cfg now s h (map Frame pre) = (out1, h1, None)
        \<and> \<not> streamEnded h1
        \<and> (\<forall>items. handle_loop cfg now s h (map Frame pre @ items)
              = (let (out2, h2, e) = handle_loop cfg now s h1 items in (out1 @ out2, h2, e)))"
    if "\<not> streamEnded h" "\<forall>p\<in>set pre. \<not> ends_response p" for h s pre
    using that
  proof (induction pre arbitrary: h)
    case Nil
    then show ?case by simp
  next
    case (Cons p pre)
    obtain o1 h1 where pc: "processContent cfg h p s = (o1, h1)"
      by (cases "processContent cfg h p s")
    have h1: "\<not> streamEnded h1" using processContent_streamEnded[OF pc] Cons.prems(1) by simp
    from Cons.prems(2) have np: "\<not> hasError p" "\<not> is_done (data p)" "phase (data p) \<noteq> js ''done''"
      and rest: "\<forall>p\<in>set pre. \<not> ends_response p"
      by (auto simp: ends_response_def)
    from Cons.IH[OF h1 rest] obtain o2 h2 where
      a: "handle_loop cfg now s h1 (map Frame pre) = (o2, h2, None)" and b: "\<not> streamEnded h2"
      and c: "\<And>items. handle_loop cfg now s h1 (map Frame pre @ items)
              = (let (out2, h3, e) = handle_loop cfg now s h2 items in (o2 @ out2, h3, e))"
      by blast
    show ?case
      using np pc a b c by (auto simp: Let_def split: prod.splits)
  qed
  from loop[OF assms(2,3), of False] obtain out1 h1 where
    a: "handle_loop cfg now False h (map Frame pre) = (out1, h1, None)" and b: "\<not> streamEnded h1"
    and c: "\<And>items. handle_loop cfg now False h (map Frame pre @ items)
              = (let (out2, h2, e) = handle_loop cfg now False h1 items in (out1 @ out2, h2, e))"
    by blast
  have "handle_loop cfg now False h (map Frame pre @ Frame f # rest)
        = (out1 @ handleUpstreamError cfg (the (getError f)), h1\<lparr>streamEnded := True\<rparr>, None)"
    using c[of "Frame f # rest"] assms(1) b by simp
  then have "fst (handle cfg now h (Ok (map Frame pre @ Frame f # rest)))
           = fst (handle cfg now h (Ok (map Frame pre)))
             @ [Data (createOpenAIResponseChunk (PRIMARY_MODEL cfg) None (Some (js ''stop''))), DONE]"
       "streamEnded (snd (handle cfg now h (Ok (map Frame pre @ Frame f # rest))))"
    using a by (simp_all add: handle_def Let_def handleUpstreamError_def)
  moreover have "getError f \<noteq> None" "\<forall>e. error f = Some e \<longrightarrow> getError f = Some e"
     "\<forall>e. error f = None \<and> data_error (data f) = Some e \<longrightarrow> getError f = Some e"
    using assms(1) by (auto simp: hasError_def getError_def split: option.splits)
  moreover have "createOpenAIResponseChunk (PRIMARY_MODEL cfg) None (Some (js ''stop''))
             = \<lparr>model = PRIMARY_MODEL cfg, chunk_delta = empty_delta,
                finish_reason = Some (js ''stop'')\<rparr>"
    by (simp add: createOpenAIResponseChunk_def)
  ultimately show ?thesis by blast
qed

theorem upstream_error_ends_stream_witness:
  \<open>hasError ((sample_frame (js ''answer'') (js ''late'') [] False)
       \<lparr>data := (data (sample_frame (js ''answer'') (js ''late'') [] False))
          \<lparr>inner := Some \<lparr>inner_error = Some sample_error\<rparr>\<rparr>\<rparr>)
   \<and> \<not> streamEnded (new_stream_handler (js ''GLM-4.5'') False)
   \<and> \<not> ends_response (sample_frame (js ''answer'') (js ''hi'') [] False)
   \<and> fst (handle sample_config 0 (new_stream_handler (js ''GLM-4.5'') False)
        (Ok (map Frame [sample_frame (js ''answer'') (js ''hi'') [] False]
             @ Frame ((sample_frame (js ''answer'') (js ''late'') [] False)
                 \<lparr>data := (data (sample_frame (js ''answer'') (js ''late'') [] False))
                    \<lparr>inner := Some \<lparr>inner_error = Some sample_error\<rparr>\<rparr>\<rparr>)
             # [Frame (sample_frame (js ''answer'') (js ''more'') [] True)])))
     = fst (handle sample_config 0 (new_stream_handler (js ''GLM-4.5'') False)
              (Ok (map Frame [sample_frame (js ''answer'') (js ''hi'') [] False])))
       @ [Data (createOpenAIResponseChunk (PRIMARY_MODEL sample_config) None (Some (js ''stop''))),
          DONE]\<close>
proof -
  let ?f = \<open>(sample_frame (js ''answer'') (js ''late'') [] False)
       \<lparr>data := (data (sample_frame (js ''answer'') (js ''late'') [] False))
          \<lparr>inner := Some \<lparr>inner_error = Some sample_error\<rparr>\<rparr>\<rparr>\<close>
  have a: \<open>hasError ?f\<close> by (simp add: hasError_def sample_frame_def)
  have b: \<open>\<not> streamEnded (new_stream_handler (js ''GLM-4.5'') False)\<close>
    by (simp add: new_stream_handler_def)
  have c: \<open>\<forall>p\<in>set [sample_frame (js ''answer'') (js ''hi'') [] False]. \<not> ends_response p\<close>
    by (simp add: ends_response_def hasError_def sample_frame_def js_def)
  from upstream_error_ends_stream [OF a b c, of sample_config 0
         \<open>[Frame (sample_frame (js ''answer'') (js ''more'') [] True)]\<close>]
  show ?thesis using a b c by simp
qed

section \<open>The initial answer content\<close>

text \<open>
  C7: in the path without tools, only the first answer frame with \<^verbatim>\<open>edit_content\<close> is
  special-cased, and later answer frames contribute their \<^verbatim>\<open>delta_content\<close> only. The
  code does otherwise: \<^verbatim>\<open>sentInitialAnswer\<close> is passed to \<^verbatim>\<open>_processContent\<close> by value, so
  that the flag of \<^verbatim>\<open>handle\<close> stays false, and every answer frame with \<^verbatim>\<open>edit_content\<close>
  sends the extracted content again. Here two answer frames with snapshots and no
  \<^verbatim>\<open>delta_content\<close> give two content chunks.
\<close>

theorem initial_answer_sent_for_every_frame:
  \<open>fst (handle sample_config 0 (new_stream_handler (js ''GLM-4.5'') False)
     (Ok [Frame (sample_frame (js ''answer'') [] (js ''</details>A'') False),
          Frame (sample_frame (js ''answer'') [] (js ''</details>AB'') False),
          Frame (sample_frame (js ''answer'') [] [] True)]))
   = [Data (createOpenAIResponseChunk (js ''GLM-4.5'')
        (Some (empty_delta\<lparr>role := Some (js ''assistant'')\<rparr>)) None),
      Data (createOpenAIResponseChunk (js ''GLM-4.5'')
        (Some (empty_delta\<lparr>content := Some (js ''A'')\<rparr>)) None),
      Data (createOpenAIResponseChunk (js ''GLM-4.5'')
        (Some (empty_delta\<lparr>content := Some (js ''AB'')\<rparr>)) None),
      Data (createOpenAIResponseChunk (js ''GLM-4.5'') None (Some (js ''stop''))),
      DONE]\<close>
  by code_simp

text \<open>
  The content extracted is the part between the first and the second marker, not all that
  follows the first.
\<close>

lemma extractEditContent_between_markers:
  \<open>extractEditContent (js ''x</details>A</details>B'') = js ''A''\<close>
  by code_simp

section \<open>The non-streaming handler collects \<^verbatim>\<open>delta_content\<close> only\<close>

lemma collect_edit_content:
  "collect cfg (map (\<lambda>it. case it of
                      Frame f \<Rightarrow> Frame (f\<lparr>data := (data f)\<lparr>edit_content := e f\<rparr>\<rparr>)
                    | Fails \<Rightarrow> Fails) items) = collect cfg items"
proof (induction items)
  case Nil
  then show ?case by simp
next
  case (Cons it items)
  then show ?case by (cases it) (simp_all add: Let_def)
qed

lemma collect_no_delta:
  "\<forall>f. Frame f \<in> set items \<longrightarrow> delta_content (data f) = [] \<Longrightarrow> fst (collect cfg items) = []"
proof (induction items)
  case Nil
  then show ?case by simp
next
  case (Cons it items)
  then show ?case by (cases it) (auto simp: Let_def split: prod.splits)
qed

lemma collect_no_failure:
  "Fails \<notin> set items \<Longrightarrow> snd (collect cfg items) = None"
proof (induction items)
  case Nil
  then show ?case by simp
next
  case (Cons it items)
  then show ?case by (cases it) (auto simp: Let_def split: prod.splits)
qed

lemma removeToolJsonContent_empty: "removeToolJsonContent [] = []"
  by (simp add: removeToolJsonContent_def replace_def trim_def)

lemma transformThinkingContent_Nil: "transformThinkingContent mode [] = []"
  by (simp add: transformThinkingContent_def replace_def trim_def)

text \<open>
  The parts collected from frames of which only the last may be a done frame: the
  \<^verbatim>\<open>delta_content\<close> of every frame, transformed in the thinking phase, without the empty
  ones.
\<close>

lemma collect_delta_content:
  assumes "\<forall>f\<in>set fs. \<not> is_done (data f) \<and> phase (data f) \<noteq> js ''done''"
  shows "collect cfg (map Frame (fs @ [l]))
         = (filter (\<lambda>c. c \<noteq> [])
              (map (\<lambda>f. if phase (data f) = js ''thinking''
                        then transformThinkingContent (THINKING_PROCESSING cfg) (delta_content (data f))
                        else delta_content (data f)) (fs @ [l])), None)"
  using assms
proof (induction fs)
  case Nil
  show ?case by (simp add: Let_def transformThinkingContent_Nil)
next
  case (Cons f fs)
  then show ?case by (simp add: Let_def transformThinkingContent_Nil)
qed

text \<open>
  C10: what \<^verbatim>\<open>NonStreamResponseHandler.handle\<close> collects does not depend on
  \<^verbatim>\<open>edit_content\<close>: replacing the \<^verbatim>\<open>edit_content\<close> of every frame by anything else leaves
  the collected parts as they are. When every frame has an empty \<^verbatim>\<open>delta_content\<close>, the
  collected content is the empty string, and, when the iteration does not fail, the
  response carries the empty string as its message content, with or without tools. And
  the \<^verbatim>\<open>delta_content\<close> is what is collected: from frames of which only the last may be a
  done frame, the parts collected are the \<^verbatim>\<open>delta_content\<close> of every frame (transformed in
  the thinking phase), without the empty ones.
\<close>

theorem nonstream_collects_delta_content_only:
  "collect cfg (map (\<lambda>it. case it of
                      Frame f \<Rightarrow> Frame (f\<lparr>data := (data f)\<lparr>edit_content := e f\<rparr>\<rparr>)
                    | Fails \<Rightarrow> Fails) items) = collect cfg items
   \<and> ((\<forall>f. Frame f \<in> set items \<longrightarrow> delta_content (data f) = []) \<longrightarrow>
        concat (fst (collect cfg items)) = []
        \<and> (Fails \<notin> set items \<longrightarrow>
             nonstream_handle cfg now name tools (Ok items)
               = Inr (Completion \<lparr>completion_model = name, message_content = Some [],
                        message_tool_calls = None, completion_finish_reason = js ''stop''\<rparr>)))
   \<and> ((\<forall>f\<in>set fs. \<not> is_done (data f) \<and> phase (data f) \<noteq> js ''done'') \<longrightarrow>
        collect cfg (map Frame (fs @ [l]))
          = (filter (\<lambda>c. c \<noteq> [])
               (map (\<lambda>f. if phase (data f) = js ''thinking''
                         then transformThinkingContent (THINKING_PROCESSING cfg)
                                (delta_content (data f))
                         else delta_content (data f)) (fs @ [l])), None))"
proof (intro conjI impI)
  show "collect cfg (map (\<lambda>it. case it of
                      Frame f \<Rightarrow> Frame (f\<lparr>data := (data f)\<lparr>edit_content := e f\<rparr>\<rparr>)
                    | Fails \<Rightarrow> Fails) items) = collect cfg items"
    by (rule collect_edit_content)
next
  assume a: "\<forall>f. Frame f \<in> set items \<longrightarrow> delta_content (data f) = []"
  then show "concat (fst (collect cfg items)) = []" by (simp add: collect_no_delta)
next
  assume a: "\<forall>f. Frame f \<in> set items \<longrightarrow> delta_content (data f) = []"
    and b: "Fails \<notin> set items"
  have "collect cfg items = ([], None)"
    using collect_no_delta[OF a, of cfg] collect_no_failure[OF b, of cfg]
    by (cases "collect cfg items") simp
  then show "nonstream_handle cfg now name tools (Ok items)
               = Inr (Completion \<lparr>completion_model = name, message_content = Some [],
                        message_tool_calls = None, completion_finish_reason = js ''stop''\<rparr>)"
    by (simp add: nonstream_handle_def extractToolInvocations_def removeToolJsonContent_empty)
next
  assume "\<forall>f\<in>set fs. \<not> is_done (data f) \<and> phase (data f) \<noteq> js ''done''"
  then show "collect cfg (map Frame (fs @ [l]))
          = (filter (\<lambda>c. c \<noteq> [])
               (map (\<lambda>f. if phase (data f) = js ''thinking''
                         then transformThinkingContent (THINKING_PROCESSING cfg)
                                (delta_content (data f))
                         else delta_content (data f)) (fs @ [l])), None)"
    by (rule collect_delta_content)
qed

theorem nonstream_collects_delta_content_only_witness:
  \<open>delta_content (data (sample_frame (js ''answer'') [] (js ''</details>A'') False)) = []
   \<and> delta_content (data (sample_frame (js ''answer'') [] (js ''</details>AB'') True)) = []
   \<and> Fails \<notin> set [Frame (sample_frame (js ''answer'') [] (js ''</details>A'') False),
                   Frame (sample_frame (js ''answer'') [] (js ''</details>AB'') True)]
   \<and> nonstream_handle sample_config 0 (js ''GLM-4.5'') False
        (Ok [Frame (sample_frame (js ''answer'') [] (js ''</details>A'') False),
             Frame (sample_frame (js ''answer'') [] (js ''</details>AB'') True)])
      = Inr (Completion \<lparr>completion_model = js ''GLM-4.5'', message_content = Some [],
               message_tool_calls = None, completion_finish_reason = js ''stop''\<rparr>)
   \<and> \<not> is_done (data (sample_frame (js ''answer'') (js ''Hel'') (js ''x'') False))
   \<and> phase (data (sample_frame (js ''answer'') (js ''Hel'') (js ''x'') False)) \<noteq> js ''done''
   \<and> collect sample_config
        (map Frame ([sample_frame (js ''answer'') (js ''Hel'') (js ''x'') False]
                    @ [sample_frame (js ''answer'') (js ''lo'') (js ''y'') True]))
      = ([js ''Hel'', js ''lo''], None)\<close>
proof -
  let ?items = \<open>[Frame (sample_frame (js ''answer'') [] (js ''</details>A'') False),
                 Frame (sample_frame (js ''answer'') [] (js ''</details>AB'') True)]\<close>
  have a: \<open>\<forall>f. Frame f \<in> set ?items \<longrightarrow> delta_content (data f) = []\<close>
    by (auto simp: sample_frame_def)
  have b: \<open>Fails \<notin> set ?items\<close> by simp
  have c: \<open>\<forall>f\<in>set [sample_frame (js ''answer'') (js ''Hel'') (js ''x'') False].
              \<not> is_done (data f) \<and> phase (data f) \<noteq> js ''done''\<close>
    by (simp add: sample_frame_def js_def)
  note th = nonstream_collects_delta_content_only
         [of sample_config \<open>\<lambda>f. edit_content (data f)\<close> ?items 0 \<open>js ''GLM-4.5''\<close> False
             \<open>[sample_frame (js ''answer'') (js ''Hel'') (js ''x'') False]\<close>
             \<open>sample_frame (js ''answer'') (js ''lo'') (js ''y'') True\<close>]
  from th a b have 1: \<open>nonstream_handle sample_config 0 (js ''GLM-4.5'') False (Ok ?items)
      = Inr (Completion \<lparr>completion_model = js ''GLM-4.5'', message_content = Some [],
               message_tool_calls = None, completion_finish_reason = js ''stop''\<rparr>)\<close>
    by blast
  from th c have \<open>collect sample_config
        (map Frame ([sample_frame (js ''answer'') (js ''Hel'') (js ''x'') False]
                    @ [sample_frame (js ''answer'') (js ''lo'') (js ''y'') True]))
      = (filter (\<lambda>c. c \<noteq> [])
           (map (\<lambda>f. if phase (data f) = js ''thinking''
                     then transformThinkingContent (THINKING_PROCESSING sample_config)
                            (delta_content (data f))
                     else delta_content (data f))
              ([sample_frame (js ''answer'') (js ''Hel'') (js ''x'') False]
               @ [sample_frame (js ''answer'') (js ''lo'') (js ''y'') True])), None)\<close>
    by blast
  then have 2: \<open>collect sample_config
        (map Frame ([sample_frame (js ''answer'') (js ''Hel'') (js ''x'') False]
                    @ [sample_frame (js ''answer'') (js ''lo'') (js ''y'') True]))
      = ([js ''Hel'', js ''lo''], None)\<close>
    by (simp add: sample_frame_def js_def)
  from 1 2 show ?thesis by (simp add: sample_frame_def js_def)
qed

section \<open>Properties of the extraction\<close>

lemma substring0_take: "substring0 s n = take (nat n) s"
  by (auto simp: substring0_def)

lemma scan_Match:
  "Match x \<in> set (scan m prev s)
   \<Longrightarrow> \<exists>prev' pre s' n. s = pre @ s' \<and> m prev' s' = Some (n, x) \<and> 0 < n"
proof (induction m prev s rule: scan.induct)
  case (1 m prev)
  then show ?case by simp
next
  case (2 m prev c cs)
  show ?case
  proof (cases "m prev (c # cs)")
    case None
    with 2(4) have "Match x \<in> set (scan m (Some c) cs)" by simp
    from 2(1)[OF None this] obtain prev' pre s' n where
      "cs = pre @ s'" "m prev' s' = Some (n, x)" "0 < n" by blast
    then have "c # cs = (c # pre) @ s'" by simp
    with \<open>m prev' s' = Some (n, x)\<close> \<open>0 < n\<close> show ?thesis by blast
  next
    case (Some a)
    obtain n y where a: "a = (n, y)" by (cases a)
    show ?thesis
    proof (cases "0 < n")
      case True
      with 2(4) Some a consider "x = y"
        | "Match x \<in> set (scan m (Some (last (take n (c # cs)))) (drop n (c # cs)))"
        by auto
      then show ?thesis
      proof cases
        case 1
        have "c # cs = [] @ (c # cs)" by simp
        with Some a 1 True show ?thesis by blast
      next
        case 2
        from "2.IH"(2)[OF Some a[symmetric] True 2] obtain prev' pre s' k where
          "drop n (c # cs) = pre @ s'" "m prev' s' = Some (k, x)" "0 < k" by blast
        then have "c # cs = (take n (c # cs) @ pre) @ s'"
          by (metis append_assoc append_take_drop_id)
        with \<open>m prev' s' = Some (k, x)\<close> \<open>0 < k\<close> show ?thesis by blast
      qed
    next
      case False
      with 2(4) Some a have "Match x \<in> set (scan m (Some c) cs)" by simp
      from "2.IH"(3)[OF Some a[symmetric] False this] obtain prev' pre s' k where
        "cs = pre @ s'" "m prev' s' = Some (k, x)" "0 < k" by blast
      then have "c # cs = (c # pre) @ s'" by simp
      with \<open>m prev' s' = Some (k, x)\<close> \<open>0 < k\<close> show ?thesis by blast
    qed
  qed
qed

lemma matches_Match: "x \<in> set (matches m s) \<longleftrightarrow> Match x \<in> set (scan m None s)"
  unfolding matches_def by (auto split: piece.splits)

lemma startsWith_take: "startsWith s p \<longleftrightarrow> take (length p) s = p"
  by (induction s p rule: startsWith.induct) auto

lemma startsWith_Cons: "startsWith s (p # ps) \<Longrightarrow> \<exists>r. s = p # r \<and> startsWith r ps"
  by (cases s) auto

lemma re_function_call_head:
  assumes "re_function_call prev s = Some (n, x)"
  shows "\<exists>r. x = 0x8C03 # r"
proof -
  from assms have sw: "startsWith s [0x8C03, 0x7528, 0x51FD, 0x6570]"
    by (auto simp: re_function_call_def split: if_splits)
  then obtain s4 where s: "s = 0x8C03 # 0x7528 # 0x51FD # 0x6570 # s4"
    by (auto dest!: startsWith_Cons)
  from assms sw obtain c r1 t where
    d: "dropWhile is_ws (drop 4 s) = c # r1"
    and x: "x = take (length s - length (dropWhile is_ws r1) + t) s"
    by (auto simp: re_function_call_def Let_def split: if_splits list.splits option.splits)
  have "length (dropWhile is_ws r1) \<le> length r1" by (rule length_dropWhile_le)
  moreover have "length (c # r1) \<le> length (drop 4 s)"
    using length_dropWhile_le[of is_ws "drop 4 s"] d by simp
  ultimately have "0 < length s - length (dropWhile is_ws r1) + t" using s by simp
  then obtain k where "length s - length (dropWhile is_ws r1) + t = Suc k"
    by (cases "length s - length (dropWhile is_ws r1) + t") auto
  with x s show ?thesis by simp
qed

lemma trim_head:
  assumes "\<not> is_ws c"
  shows "\<exists>r'. trim (c # r) = c # r'"
proof -
  have "dropWhile is_ws (rev r @ [c]) \<noteq> []" using assms by (simp add: dropWhile_append3)
  moreover have "\<exists>zs. rev r @ [c] = takeWhile is_ws (rev r @ [c]) @ dropWhile is_ws (rev r @ [c])"
    by simp
  ultimately obtain ys where "dropWhile is_ws (rev r @ [c]) = ys @ [c]"
    by (metis (no_types, lifting) append_butlast_last_id last_appendR last_snoc takeWhile_dropWhile_id)
  then show ?thesis using assms by (simp add: trim_def)
qed

lemma JSON_parse_phrase: "JSON_parse (0x8C03 # r) = None"
  by (simp add: JSON_parse_def is_json_ws_def js_def parse_number_def is_digit_def)

lemma natural_language_no_list: "natural_language now s \<noteq> Inr (Some l)"
proof
  assume a: "natural_language now s = Inr (Some l)"
  then obtain m0 m1 m2 ms v where ms: "matches re_function_call s = m0 # m1 # m2 # ms"
    and p: "JSON_parse (trim m2) = Some v"
    by (auto simp: natural_language_def Let_def split: list.splits option.splits)
  from ms have "m2 \<in> set (matches re_function_call s)" by simp
  then have "Match m2 \<in> set (scan re_function_call None s)" by (simp add: matches_Match)
  from scan_Match[OF this] obtain prev' s' n where "re_function_call prev' s' = Some (n, m2)"
    by blast
  from re_function_call_head[OF this] obtain r where "m2 = 0x8C03 # r" by blast
  moreover have "\<not> is_ws 0x8C03" by (simp add: is_ws_def)
  ultimately obtain r' where "trim m2 = 0x8C03 # r'" using trim_head by blast
  with p show False by (simp add: JSON_parse_phrase)
qed

section \<open>The natural-language pattern\<close>

text \<open>
  C9: a text that matches the natural-language pattern once, with arguments that are valid
  JSON, should give a list with one invocation. The code throws instead: the pattern has
  the \<^verbatim>\<open>g\<close> flag, so \<^verbatim>\<open>match\<close> returns the matched texts and no groups, and
  \<^verbatim>\<open>naturalLangMatch[1]\<close> is \<^verbatim>\<open>undefined\<close>. By \<open>natural_language_no_list\<close> above, attempt
  3 returns a list for no text at all.
\<close>

theorem natural_language_call_throws:
  \<open>extractToolInvocations sample_config 0
     ([0x8C03, 0x7528, 0x51FD, 0x6570] @ js '': get_weather arguments: {"city":"Paris"}'')
   = Inl TypeError\<close>
  by code_simp

section \<open>The \<^verbatim>\<open>arguments\<close> of an invocation\<close>

text \<open>
  Arguments that are truthy are a string after the normalisation: a string stays, any
  other value is replaced by its JSON text.
\<close>

lemma map_of_replace:
  "map_of kvs k \<noteq> None
   \<Longrightarrow> map_of (map (\<lambda>(k', v'). if k' = k then (k', v) else (k', v')) kvs) k = Some v"
  by (induction kvs) (auto split: if_splits)

lemma map_of_obj_set: "map_of (obj_set kvs k v) k = Some v"
proof (cases "map_of kvs k \<noteq> None")
  case True
  then show ?thesis by (simp add: obj_set_def map_of_replace)
next
  case False
  then have "k \<notin> fst ` set kvs" by (simp add: map_of_eq_None_iff)
  then have "k \<notin> fst ` set (takeWhile P kvs)" for P
    by (auto dest!: set_takeWhileD)
  then have "map_of (takeWhile P kvs) k = None" for P by (simp add: map_of_eq_None_iff)
  with False show ?thesis by (simp add: obj_set_def map_add_def)
qed

lemma ensure_string_arguments_truthy:
  assumes "map_of fkvs (js ''arguments'') = Some a" and "truthy a"
  shows "\<exists>t. get_prop (ensure_string_arguments (JObj fkvs)) (js ''arguments'') = Some (JStr t)"
proof (cases "typeof a = TString")
  case True
  then obtain t where "a = JStr t" by (cases a) auto
  with assms True show ?thesis by (simp add: ensure_string_arguments_def)
next
  case False
  with assms show ?thesis by (simp add: ensure_string_arguments_def map_of_obj_set)
qed

text \<open>
  C5: \<^verbatim>\<open>function.arguments\<close> of every returned invocation is a string. The code
  serializes an object, an array, a number that is not zero and \<^verbatim>\<open>true\<close>, but its guard
  \<^verbatim>\<open>if (func.arguments)\<close> passes over the values that are falsy: the number 0 (as here),
  \<^verbatim>\<open>false\<close> and \<^verbatim>\<open>null\<close> are returned as they are.
\<close>

theorem falsy_arguments_not_serialized:
  \<open>extractToolInvocations sample_config 0
     (js ''{"tool_calls":[{"id":"call_1","type":"function","function":{"name":"f","arguments":0}}]}'')
   = Inr (Some [JObj [(js ''id'', JStr (js ''call_1'')), (js ''type'', JStr (js ''function'')),
                      (js ''function'', JObj [(js ''name'', JStr (js ''f'')),
                                             (js ''arguments'', JNum 0 0)])]])\<close>
  by code_simp

text \<open>The example of the specification: an object is returned as its JSON text.\<close>

lemma object_arguments_serialized:
  \<open>extractToolInvocations sample_config 0
     (js ''```json'' @ [10] @
      js ''{"tool_calls":[{"id":"call_1","type":"function","function":{"name":"f","arguments":{"a":1}}}]}''
      @ [10] @ js ''```'')
   = Inr (Some [JObj [(js ''id'', JStr (js ''call_1'')), (js ''type'', JStr (js ''function'')),
                      (js ''function'', JObj [(js ''name'', JStr (js ''f'')),
                                             (js ''arguments'', JStr (js ''{"a":1}''))])]])\<close>
  by code_simp

section \<open>The list that the extraction returns\<close>

text \<open>
  C6, as stated: the extraction returns \<^verbatim>\<open>null\<close> or a list that is not empty. This fails:
  an empty \<^verbatim>\<open>tool_calls\<close> array is an array, and it is returned.
\<close>

theorem empty_tool_calls_list:
  \<open>extractToolInvocations sample_config 0 (js ''{"tool_calls":[]}'') = Inr (Some [])\<close>
  by code_simp

lemma those_map_length:
  "those (map f xs) = Some ys \<Longrightarrow> length ys = length xs"
  by (induction xs arbitrary: ys) (auto split: option.splits)

lemma tool_calls_in_Some:
  assumes "tool_calls_in t = Some tcs"
  shows "\<exists>kvs arr. JSON_parse t = Some (JObj kvs)
            \<and> map_of kvs (js ''tool_calls'') = Some (JArr arr)
            \<and> those (map ensure_arguments arr) = Some tcs"
proof -
  from assms obtain d where d: "JSON_parse t = Some d"
    by (auto simp: tool_calls_in_def split: option.splits)
  show ?thesis
  proof (cases d)
    case (JObj kvs)
    with assms d show ?thesis
      by (auto simp: tool_calls_in_def split: option.splits json.splits)
  qed (use assms d in \<open>auto simp: tool_calls_in_def\<close>)
qed

lemma first_result_map: "first_result f (map g xs) = first_result (\<lambda>x. f (g x)) xs"
  by (induction xs) (auto split: option.splits)

lemma first_result_append:
  "first_result f (xs @ ys) =
     (case first_result f xs of Some y \<Rightarrow> Some y | None \<Rightarrow> first_result f ys)"
  by (induction xs) (auto split: option.splits)

lemma inline_scan_spans: "inline_scan s = first_result tool_calls_in (spans s)"
  by (induction s) (auto split: option.splits)

text \<open>A loop that returns from its first round with a result returns the result of that round.\<close>

lemma first_result_iff:
  "first_result f xs = Some y \<longleftrightarrow>
     (\<exists>pre t post. xs = pre @ t # post \<and> (\<forall>u\<in>set pre. f u = None) \<and> f t = Some y)"
proof (induction xs)
  case Nil
  then show ?case by simp
next
  case (Cons x xs)
  show ?case
  proof (cases "f x")
    case None
    show ?thesis
    proof
      assume "first_result f (x # xs) = Some y"
      with None Cons.IH obtain pre t post where
        "xs = pre @ t # post" "\<forall>u\<in>set pre. f u = None" "f t = Some y" by auto
      with None have "x # xs = (x # pre) @ t # post \<and> (\<forall>u\<in>set (x # pre). f u = None) \<and> f t = Some y"
        by simp
      then show "\<exists>pre t post. x # xs = pre @ t # post \<and> (\<forall>u\<in>set pre. f u = None) \<and> f t = Some y"
        by blast
    next
      assume "\<exists>pre t post. x # xs = pre @ t # post \<and> (\<forall>u\<in>set pre. f u = None) \<and> f t = Some y"
      then obtain pre t post where
        e: "x # xs = pre @ t # post" and n: "\<forall>u\<in>set pre. f u = None" and t: "f t = Some y" by blast
      from e t None obtain pre' where "pre = x # pre'" by (cases pre) auto
      with e n t have "xs = pre' @ t # post \<and> (\<forall>u\<in>set pre'. f u = None) \<and> f t = Some y" by simp
      with Cons.IH None show "first_result f (x # xs) = Some y" by auto
    qed
  next
    case (Some z)
    show ?thesis
    proof
      assume "first_result f (x # xs) = Some y"
      with Some have "z = y" by simp
      with Some have "x # xs = [] @ x # xs \<and> (\<forall>u\<in>set []. f u = None) \<and> f x = Some y" by simp
      then show "\<exists>pre t post. x # xs = pre @ t # post \<and> (\<forall>u\<in>set pre. f u = None) \<and> f t = Some y"
        by blast
    next
      assume "\<exists>pre t post. x # xs = pre @ t # post \<and> (\<forall>u\<in>set pre. f u = None) \<and> f t = Some y"
      then obtain pre t post where
        e: "x # xs = pre @ t # post" and n: "\<forall>u\<in>set pre. f u = None" and t: "f t = Some y" by blast
      have "pre = []"
      proof (cases pre)
        case (Cons p ps)
        with e have "p = x" by simp
        with Cons n Some show ?thesis by simp
      qed simp
      with e t Some show "first_result f (x # xs) = Some y" by simp
    qed
  qed
qed

text \<open>A text gives the empty list when it parses to an object whose \<^verbatim>\<open>tool_calls\<close> is the empty array.\<close>

lemma tool_calls_in_empty:
  "tool_calls_in t = Some [] \<longleftrightarrow>
     (\<exists>v. JSON_parse t = Some v \<and> get_prop v (js ''tool_calls'') = Some (JArr []))"
proof
  assume a: "tool_calls_in t = Some []"
  from tool_calls_in_Some[OF a] obtain kvs arr where
    p: "JSON_parse t = Some (JObj kvs)" and m: "map_of kvs (js ''tool_calls'') = Some (JArr arr)"
    and th: "those (map ensure_arguments arr) = Some []" by blast
  from those_map_length[OF th] have "arr = []" by simp
  with p m show "\<exists>v. JSON_parse t = Some v \<and> get_prop v (js ''tool_calls'') = Some (JArr [])"
    by simp
next
  assume "\<exists>v. JSON_parse t = Some v \<and> get_prop v (js ''tool_calls'') = Some (JArr [])"
  then obtain v where p: "JSON_parse t = Some v"
    and g: "get_prop v (js ''tool_calls'') = Some (JArr [])" by blast
  from g obtain kvs where "v = JObj kvs" by (cases v) auto
  with p g show "tool_calls_in t = Some []" by (simp add: tool_calls_in_def)
qed

text \<open>A list that attempt 3 returns has one element, by the shape of its \<^verbatim>\<open>return\<close>.\<close>

lemma natural_language_not_empty: "natural_language now s \<noteq> Inr (Some [])"
  by (auto simp: natural_language_def Let_def split: list.splits option.splits)

lemma extract_candidates:
  "extractToolInvocations cfg now text = Inr (Some [])
   \<longleftrightarrow> first_result tool_calls_in (candidates (substring0 text (SCAN_LIMIT cfg))) = Some []"
proof (cases "text = []")
  case True
  then show ?thesis
    by (simp add: extractToolInvocations_def candidates_def substring0_take matches_def)
next
  case False
  then show ?thesis
    by (auto simp: extractToolInvocations_def Let_def candidates_def first_result_append
          first_result_map inline_scan_spans natural_language_not_empty
        split: option.splits)
qed

text \<open>
  C6, amended: the extraction returns the empty list exactly when, among the texts that
  attempts 1 and 2 parse in the scanned part of the input (group 1 of every fenced block,
  then every brace-balanced span), the first that gives a \<^verbatim>\<open>tool_calls\<close> array parses to an
  object whose \<^verbatim>\<open>tool_calls\<close> is the empty array. In every other case the result is \<^verbatim>\<open>null\<close>
  or a list that is not empty.
\<close>

theorem empty_list_from_empty_array:
  "extractToolInvocations cfg now text = Inr (Some []) \<longleftrightarrow>
     (\<exists>pre t post. candidates (substring0 text (SCAN_LIMIT cfg)) = pre @ t # post \<and>
        (\<forall>u\<in>set pre. tool_calls_in u = None) \<and>
        (\<exists>v. JSON_parse t = Some v \<and> get_prop v (js ''tool_calls'') = Some (JArr [])))"
  by (simp only: extract_candidates first_result_iff tool_calls_in_empty)

theorem empty_list_from_empty_array_witness:
  \<open>extractToolInvocations sample_config 0 (js ''x {"tool_calls":1} {"tool_calls":[]}'') = Inr (Some [])
   \<and> candidates (substring0 (js ''x {"tool_calls":1} {"tool_calls":[]}'') (SCAN_LIMIT sample_config))
       = [js ''{"tool_calls":1}'', js ''{"tool_calls":[]}'']
   \<and> (\<exists>pre t post.
         candidates (substring0 (js ''x {"tool_calls":1} {"tool_calls":[]}'') (SCAN_LIMIT sample_config))
           = pre @ t # post \<and>
         (\<forall>u\<in>set pre. tool_calls_in u = None) \<and>
         (\<exists>v. JSON_parse t = Some v \<and> get_prop v (js ''tool_calls'') = Some (JArr [])))
   \<and> extractToolInvocations sample_config 0 (js ''{"tool_calls":[{"id":"a"}]}'')
       = Inr (Some [JObj [(js ''id'', JStr (js ''a''))]])
   \<and> \<not> (\<exists>pre t post.
         candidates (substring0 (js ''{"tool_calls":[{"id":"a"}]}'') (SCAN_LIMIT sample_config))
           = pre @ t # post \<and>
         (\<forall>u\<in>set pre. tool_calls_in u = None) \<and>
         (\<exists>v. JSON_parse t = Some v \<and> get_prop v (js ''tool_calls'') = Some (JArr [])))
   \<and> extractToolInvocations (sample_config\<lparr>SCAN_LIMIT := 5\<rparr>) 0 (js ''{"tool_calls":[]}'')
       = Inr None
   \<and> candidates (substring0 (js ''{"tool_calls":[]}'') (SCAN_LIMIT (sample_config\<lparr>SCAN_LIMIT := 5\<rparr>)))
       = []\<close>
proof -
  have a: \<open>extractToolInvocations sample_config 0 (js ''x {"tool_calls":1} {"tool_calls":[]}'')
           = Inr (Some [])\<close>
    by code_simp
  have b: \<open>candidates (substring0 (js ''x {"tool_calls":1} {"tool_calls":[]}'') (SCAN_LIMIT sample_config))
       = [js ''{"tool_calls":1}'', js ''{"tool_calls":[]}'']\<close>
    by code_simp
  have c: \<open>extractToolInvocations sample_config 0 (js ''{"tool_calls":[{"id":"a"}]}'')
       = Inr (Some [JObj [(js ''id'', JStr (js ''a''))]])\<close>
    by code_simp
  then have d: \<open>extractToolInvocations sample_config 0 (js ''{"tool_calls":[{"id":"a"}]}'')
       \<noteq> Inr (Some [])\<close>
    by simp
  have e: \<open>extractToolInvocations (sample_config\<lparr>SCAN_LIMIT := 5\<rparr>) 0 (js ''{"tool_calls":[]}'')
       = Inr None\<close>
    by code_simp
  have f: \<open>candidates (substring0 (js ''{"tool_calls":[]}'')
                (SCAN_LIMIT (sample_config\<lparr>SCAN_LIMIT := 5\<rparr>))) = []\<close>
    by code_simp
  from a b c d e f
    empty_list_from_empty_array
      [of sample_config 0 \<open>js ''x {"tool_calls":1} {"tool_calls":[]}''\<close>]
    empty_list_from_empty_array
      [of sample_config 0 \<open>js ''{"tool_calls":[{"id":"a"}]}''\<close>]
  show ?thesis by blast
qed

section \<open>Stripping and extraction\<close>

lemma balance_le: "balance b i e s = Some k \<Longrightarrow> k \<le> length s"
  by (induction b i e s arbitrary: k rule: balance.induct) (auto split: if_splits)

lemma balance_append: "balance b i e s = Some k \<Longrightarrow> balance b i e (s @ r) = Some k"
  by (induction b i e s arbitrary: k rule: balance.induct) (auto split: if_splits)

lemma any_keyed_iff: "any_keyed s \<longleftrightarrow> (\<exists>pre s'. s = pre @ s' \<and> keyed_candidate s')"
proof (induction s)
  case Nil
  then show ?case by (simp add: keyed_candidate_def)
next
  case (Cons c cs)
  show ?case
  proof
    assume "any_keyed (c # cs)"
    then consider "keyed_candidate (c # cs)" | "any_keyed cs" by auto
    then show "\<exists>pre s'. c # cs = pre @ s' \<and> keyed_candidate s'"
    proof cases
      case 1
      then show ?thesis by (metis append_Nil)
    next
      case 2
      with Cons.IH obtain pre s' where "cs = pre @ s'" "keyed_candidate s'" by blast
      then show ?thesis by (metis append_Cons)
    qed
  next
    assume "\<exists>pre s'. c # cs = pre @ s' \<and> keyed_candidate s'"
    then obtain pre s' where e: "c # cs = pre @ s'" and k: "keyed_candidate s'" by blast
    show "any_keyed (c # cs)"
    proof (cases pre)
      case Nil
      with e have "s' = c # cs" by simp
      with k show ?thesis by simp
    next
      case (Cons p ps)
      with e have "cs = ps @ s'" by simp
      with k Cons.IH show ?thesis by auto
    qed
  qed
qed

lemma tool_calls_in_has: "tool_calls_in t = Some tcs \<Longrightarrow> has_tool_calls t"
  using tool_calls_in_Some[of t tcs] by (auto simp: has_tool_calls_def)

lemma braces_drop: "braces (drop k s) \<le> braces s"
proof -
  have "braces s = braces (take k s) + braces (drop k s)"
    unfolding braces_def by (metis append_take_drop_id filter_append length_append)
  then show ?thesis by simp
qed

lemma strip_inline_braces_le: "braces (strip_inline s) \<le> braces s"
proof (induction s rule: strip_inline.induct)
  case 1
  then show ?case by simp
next
  case (2 c cs)
  show ?case
  proof (cases "c = 123 \<and> (\<exists>k. balance 1 False False cs = Some k \<and> has_tool_calls (c # take k cs))")
    case True
    then obtain k where k: "c = 123" "balance 1 False False cs = Some k"
      "has_tool_calls (c # take k cs)" by blast
    with 2(2)[OF k(1) k(2) k(3)] braces_drop[of k cs] show ?thesis
      by (simp add: braces_def)
  next
    case False
    then have "strip_inline (c # cs) = c # strip_inline cs" by (auto split: option.splits)
    moreover have "braces (strip_inline cs) \<le> braces cs"
      using False 2 by (cases "c = 123"; cases "balance 1 False False cs") auto
    ultimately show ?thesis by (simp add: braces_def)
  qed
qed

lemma strip_inline_keyed: "any_keyed s \<Longrightarrow> braces (strip_inline s) < braces s"
proof (induction s rule: strip_inline.induct)
  case 1
  then show ?case by simp
next
  case (2 c cs)
  show ?case
  proof (cases "keyed_candidate (c # cs)")
    case True
    then obtain k where k: "c = 123" "balance 1 False False cs = Some k"
      "has_tool_calls (c # take k cs)"
      by (auto simp: keyed_candidate_def split: option.splits)
    then have "strip_inline (c # cs) = strip_inline (drop k cs)" by simp
    moreover have "braces (strip_inline (drop k cs)) \<le> braces cs"
      using strip_inline_braces_le[of "drop k cs"] braces_drop[of k cs] by simp
    ultimately show ?thesis using k(1) by (simp add: braces_def)
  next
    case False
    with "2.prems" have ak: "any_keyed cs" by simp
    from False have st: "strip_inline (c # cs) = c # strip_inline cs"
      by (auto simp: keyed_candidate_def split: option.splits)
    have "braces (strip_inline cs) < braces cs"
    proof (cases "c = 123")
      case c: True
      show ?thesis
      proof (cases "balance 1 False False cs")
        case None
        from "2.IH"(1)[OF c None ak] show ?thesis .
      next
        case (Some k)
        with False c have "\<not> has_tool_calls (c # take k cs)" by (simp add: keyed_candidate_def)
        from "2.IH"(3)[OF c Some this ak] show ?thesis .
      qed
    next
      case c: False
      from "2.IH"(4)[OF c ak] show ?thesis .
    qed
    with st show ?thesis by (simp add: braces_def)
  qed
qed

lemma filter_dropWhile_ws:
  "filter (\<lambda>c. c = 123) (dropWhile is_ws s) = filter (\<lambda>c. c = 123) s"
  by (induction s) (auto simp: is_ws_def)

lemma braces_trim: "braces (trim s) = braces s"
proof -
  have "filter (\<lambda>c. c = 123) (trim s) = rev (filter (\<lambda>c. c = 123) (dropWhile is_ws (rev (dropWhile is_ws s))))"
    by (simp add: trim_def rev_filter)
  also have "\<dots> = rev (filter (\<lambda>c. c = 123) (rev (dropWhile is_ws s)))"
    by (simp add: filter_dropWhile_ws)
  also have "\<dots> = filter (\<lambda>c. c = 123) s"
    by (simp add: rev_filter[symmetric] filter_dropWhile_ws)
  finally show ?thesis by (simp add: braces_def)
qed

lemma startsWith_append: "startsWith s p \<Longrightarrow> startsWith (s @ r) p"
  by (induction s p rule: startsWith.induct) auto

lemma startsWith_length: "startsWith s p \<Longrightarrow> length p \<le> length s"
  by (induction s p rule: startsWith.induct) auto

lemma startsWith_nonempty: "startsWith s (p # ps) \<Longrightarrow> s \<noteq> []"
  by (cases s) auto

lemma dropWhile_append_nonempty:
  "dropWhile P xs \<noteq> [] \<Longrightarrow> dropWhile P (xs @ r) = dropWhile P xs @ r"
  by (induction xs) auto

lemma fence_close_append: "fence_close s = Some k \<Longrightarrow> fence_close (s @ r) \<noteq> None"
proof (induction s arbitrary: k)
  case Nil
  then show ?case by simp
next
  case (Cons c cs)
  show ?case
  proof (cases "c = 125 \<and> startsWith (dropWhile is_ws cs) (js ''```'')")
    case True
    then have "dropWhile is_ws cs \<noteq> []" by (auto simp: js_def dest: startsWith_nonempty)
    with True have "startsWith (dropWhile is_ws (cs @ r)) (js ''```'')"
      by (simp add: dropWhile_append_nonempty startsWith_append)
    with True show ?thesis by simp
  next
    case False
    with Cons.prems obtain k' where "fence_close cs = Some k'" by auto
    from Cons.IH[OF this] show ?thesis by auto
  qed
qed

lemma re_fence_append:
  assumes "re_fence p s = Some v"
  shows "\<exists>n x. re_fence p' (s @ r) = Some (n, x) \<and> 0 < n"
proof -
  from assms have sw: "startsWith s (js ''```json'')"
    and b: "startsWith (dropWhile is_ws (drop 7 s)) [123]"
    and fc: "fence_close (drop 1 (dropWhile is_ws (drop 7 s))) \<noteq> None"
    by (auto simp: re_fence_def Let_def split: if_splits option.splits)
  from startsWith_length[OF sw] have len: "7 \<le> length s" by (simp add: js_def)
  from b have ne: "dropWhile is_ws (drop 7 s) \<noteq> []" by (auto dest: startsWith_nonempty)
  have d: "dropWhile is_ws (drop 7 (s @ r)) = dropWhile is_ws (drop 7 s) @ r"
    using len ne by (simp add: dropWhile_append_nonempty)
  have d1: "drop 1 (dropWhile is_ws (drop 7 s) @ r) = drop 1 (dropWhile is_ws (drop 7 s)) @ r"
    using ne by (cases "dropWhile is_ws (drop 7 s)") auto
  from fc obtain k where "fence_close (drop 1 (dropWhile is_ws (drop 7 s))) = Some k" by auto
  from fence_close_append[OF this, of r] obtain k' where
    k': "fence_close (drop 1 (dropWhile is_ws (drop 7 s)) @ r) = Some k'" by auto
  have "re_fence p' (s @ r) =
          (let r2 = drop (k' + 2) (dropWhile is_ws (drop 7 s) @ r);
               n = length (s @ r) - length r2 + length (takeWhile is_ws r2) + 3
           in Some (n, (take n (s @ r), take (k' + 2) (dropWhile is_ws (drop 7 s) @ r))))"
    unfolding re_fence_def Let_def d d1
    using startsWith_append[OF sw, of r] startsWith_append[OF b, of r] k' by simp
  then show ?thesis by (simp add: Let_def)
qed

lemma scan_finds:
  "\<forall>p p' t. m p t = m p' t \<Longrightarrow> \<forall>p. m p [] = None \<Longrightarrow> s = pre @ s'
   \<Longrightarrow> m p s' = Some (n, x) \<Longrightarrow> 0 < n \<Longrightarrow> \<exists>y. Match y \<in> set (scan m prev s)"
proof (induction m prev s arbitrary: pre rule: scan.induct)
  case (1 m prev)
  then have "s' = []" by simp
  with "1.prems"(2,4) show ?case by simp
next
  case (2 m prev c cs)
  note indep = "2.prems"(1) and empty = "2.prems"(2)
  show ?case
  proof (cases "\<exists>n' x'. m prev (c # cs) = Some (n', x') \<and> 0 < n'")
    case True
    then show ?thesis by auto
  next
    case False
    have "pre \<noteq> []"
    proof
      assume "pre = []"
      with "2.prems"(3) have "s' = c # cs" by simp
      with "2.prems"(4,5) indep False show False by (metis)
    qed
    then obtain q qs where pre: "pre = q # qs" by (cases pre) auto
    with "2.prems"(3) have cs: "cs = qs @ s'" by simp
    show ?thesis
    proof (cases "m prev (c # cs)")
      case None
      from "2.IH"(1)[OF None indep empty cs "2.prems"(4,5)] None show ?thesis by auto
    next
      case (Some a)
      obtain n' x' where a: "a = (n', x')" by (cases a)
      with False Some have n0: "\<not> 0 < n'" by auto
      from "2.IH"(3)[OF Some a[symmetric] n0 indep empty cs "2.prems"(4,5)] Some a n0
      show ?thesis by auto
    qed
  qed
qed

lemma no_fence_prefix:
  assumes "\<not> test re_fence text"
  shows "matches re_fence (take n text) = []"
proof (rule ccontr)
  assume "matches re_fence (take n text) \<noteq> []"
  then obtain x where "x \<in> set (matches re_fence (take n text))" by (cases "matches re_fence (take n text)") auto
  then have "Match x \<in> set (scan re_fence None (take n text))" by (simp add: matches_Match)
  from scan_Match[OF this] obtain prev' pre s' k where
    a: "take n text = pre @ s'" and b: "re_fence prev' s' = Some (k, x)" by blast
  from re_fence_append[OF b, of None "drop n text"] obtain k' x' where
    c: "re_fence None (s' @ drop n text) = Some (k', x')" "0 < k'" by blast
  have tx: "text = pre @ (s' @ drop n text)" using a by (metis append_assoc append_take_drop_id)
  have indep: "\<forall>p p' t. re_fence p t = re_fence p' t" by (simp add: re_fence_def)
  have empty: "\<forall>p. re_fence p [] = None" by (simp add: re_fence_def js_def)
  from scan_finds[of re_fence, OF indep empty tx c]
  obtain y where "Match y \<in> set (scan re_fence None text)" by blast
  then have "y \<in> set (matches re_fence text)" by (simp add: matches_Match)
  with assms show False by (auto simp: test_def)
qed

lemma balance_take: "balance b i e s = Some k \<Longrightarrow> balance b i e (take k s) = Some k"
  by (induction b i e s arbitrary: k rule: balance.induct) (auto split: if_splits)

lemma keyed_candidate_span:
  assumes "keyed_candidate (c # cs)"
  shows "\<exists>k. balance 1 False False cs = Some k \<and> k \<le> length cs \<and> c = 123
             \<and> has_tool_calls (c # take k cs) \<and> tool_span (c # take k cs)"
proof -
  from assms obtain k where c: "c = 123" and b: "balance 1 False False cs = Some k"
    and h: "has_tool_calls (c # take k cs)"
    by (auto simp: keyed_candidate_def split: option.splits)
  from balance_le[OF b] have kl: "k \<le> length cs" .
  with balance_take[OF b] c h have "tool_span (c # take k cs)" by (simp add: tool_span_def)
  with c b h kl show ?thesis by blast
qed

lemma tool_span_keyed: "tool_span d \<Longrightarrow> keyed_candidate (d @ r)"
proof -
  assume a: "tool_span d"
  then obtain cs where d: "d = 123 # cs" and b: "balance 1 False False cs = Some (length cs)"
    and h: "has_tool_calls d"
    by (auto simp: tool_span_def split: list.splits)
  from balance_append[OF b, of r] d h show ?thesis by (simp add: keyed_candidate_def)
qed

lemma strip_inline_step:
  "strip_inline (c # cs) =
     (if keyed_candidate (c # cs) then strip_inline (drop (the (balance 1 False False cs)) cs)
      else c # strip_inline cs)"
  by (auto simp: keyed_candidate_def split: option.splits)

lemma strip_inline_parts:
  "\<exists>ps. whole ps = s \<and> strip_inline s = kept ps
        \<and> (\<forall>d. Removed d \<in> set ps \<longrightarrow> tool_span d)
        \<and> (\<forall>pre c post. ps = pre @ Kept c # post \<longrightarrow> \<not> keyed_candidate (c # whole post))"
proof (induction s rule: length_induct)
  case (1 s)
  show ?case
  proof (cases s)
    case Nil
    have "whole [] = s \<and> strip_inline s = kept []
        \<and> (\<forall>d. Removed d \<in> set [] \<longrightarrow> tool_span d)
        \<and> (\<forall>pre c post. [] = pre @ Kept c # post \<longrightarrow> \<not> keyed_candidate (c # whole post))"
      using Nil by simp
    then show ?thesis by blast
  next
    case (Cons c cs)
    show ?thesis
    proof (cases "keyed_candidate (c # cs)")
      case True
      from keyed_candidate_span[OF True] obtain k where
        b: "balance 1 False False cs = Some k" and kl: "k \<le> length cs"
        and ts: "tool_span (c # take k cs)" by blast
      have "length (drop k cs) < length s" using Cons by simp
      with 1 obtain ps where ps: "whole ps = drop k cs" "strip_inline (drop k cs) = kept ps"
        "\<forall>d. Removed d \<in> set ps \<longrightarrow> tool_span d"
        "\<forall>pre c post. ps = pre @ Kept c # post \<longrightarrow> \<not> keyed_candidate (c # whole post)"
        by blast
      let ?ps = "Removed (c # take k cs) # ps"
      have w: "whole ?ps = s" using ps(1) Cons by simp
      have st: "strip_inline s = kept ?ps" using True b ps(2) Cons by (simp add: strip_inline_step del: strip_inline.simps)
      have r: "\<forall>d. Removed d \<in> set ?ps \<longrightarrow> tool_span d" using ps(3) ts by auto
      have k: "\<forall>pre c' post. ?ps = pre @ Kept c' # post \<longrightarrow> \<not> keyed_candidate (c' # whole post)"
      proof (intro allI impI)
        fix pre c' post
        assume e: "?ps = pre @ Kept c' # post"
        then obtain pre' where "pre = Removed (c # take k cs) # pre'" by (cases pre) auto
        with e have "ps = pre' @ Kept c' # post" by simp
        with ps(4) show "\<not> keyed_candidate (c' # whole post)" by blast
      qed
      from w st r k show ?thesis by blast
    next
      case False
      have "length cs < length s" using Cons by simp
      with 1 obtain ps where ps: "whole ps = cs" "strip_inline cs = kept ps"
        "\<forall>d. Removed d \<in> set ps \<longrightarrow> tool_span d"
        "\<forall>pre c post. ps = pre @ Kept c # post \<longrightarrow> \<not> keyed_candidate (c # whole post)"
        by blast
      let ?ps = "Kept c # ps"
      have w: "whole ?ps = s" using ps(1) Cons by simp
      have st: "strip_inline s = kept ?ps" using False ps(2) Cons by (simp add: strip_inline_step del: strip_inline.simps)
      have r: "\<forall>d. Removed d \<in> set ?ps \<longrightarrow> tool_span d" using ps(3) by auto
      have k: "\<forall>pre c' post. ?ps = pre @ Kept c' # post \<longrightarrow> \<not> keyed_candidate (c' # whole post)"
      proof (intro allI impI)
        fix pre c' post
        assume e: "?ps = pre @ Kept c' # post"
        show "\<not> keyed_candidate (c' # whole post)"
        proof (cases pre)
          case Nil
          with e have "c' = c" "post = ps" by simp_all
          with False ps(1) show ?thesis by simp
        next
          case (Cons q qs)
          with e have "ps = qs @ Kept c' # post" by simp
          with ps(4) show ?thesis by blast
        qed
      qed
      from w st r k show ?thesis by blast
    qed
  qed
qed

lemma whole_append: "whole (ps @ qs) = whole ps @ whole qs"
  by (induction ps rule: whole.induct) auto

lemma part_at:
  "p < length (whole ps) \<Longrightarrow>
     (\<exists>ps1 c ps2. ps = ps1 @ Kept c # ps2 \<and> length (whole ps1) = p) \<or>
     (\<exists>ps1 e ps2. ps = ps1 @ Removed e # ps2 \<and> length (whole ps1) \<le> p
                   \<and> p < length (whole ps1) + length e)"
proof (induction ps arbitrary: p rule: whole.induct)
  case 1
  then show ?case by simp
next
  case (2 c ps)
  show ?case
  proof (cases p)
    case 0
    have "Kept c # ps = [] @ Kept c # ps \<and> length (whole []) = p" using 0 by simp
    then show ?thesis by blast
  next
    case (Suc q)
    with 2(2) have "q < length (whole ps)" by simp
    from 2(1)[OF this] show ?thesis
    proof
      assume "\<exists>ps1 c ps2. ps = ps1 @ Kept c # ps2 \<and> length (whole ps1) = q"
      then obtain ps1 c' ps2 where "ps = ps1 @ Kept c' # ps2" "length (whole ps1) = q" by blast
      then have "Kept c # ps = (Kept c # ps1) @ Kept c' # ps2 \<and> length (whole (Kept c # ps1)) = p"
        using Suc by simp
      then show ?thesis by blast
    next
      assume "\<exists>ps1 e ps2. ps = ps1 @ Removed e # ps2 \<and> length (whole ps1) \<le> q
                   \<and> q < length (whole ps1) + length e"
      then obtain ps1 e ps2 where "ps = ps1 @ Removed e # ps2" "length (whole ps1) \<le> q"
        "q < length (whole ps1) + length e" by blast
      then have "Kept c # ps = (Kept c # ps1) @ Removed e # ps2
          \<and> length (whole (Kept c # ps1)) \<le> p \<and> p < length (whole (Kept c # ps1)) + length e"
        using Suc by simp
      then show ?thesis by blast
    qed
  qed
next
  case (3 d ps)
  show ?case
  proof (cases "p < length d")
    case True
    have "Removed d # ps = [] @ Removed d # ps \<and> length (whole []) \<le> p
          \<and> p < length (whole []) + length d" using True by simp
    then show ?thesis by blast
  next
    case False
    define q where "q = p - length d"
    with False 3(2) have q: "q < length (whole ps)" "p = length d + q" by simp_all
    from 3(1)[OF q(1)] show ?thesis
    proof
      assume "\<exists>ps1 c ps2. ps = ps1 @ Kept c # ps2 \<and> length (whole ps1) = q"
      then obtain ps1 c' ps2 where "ps = ps1 @ Kept c' # ps2" "length (whole ps1) = q" by blast
      then have "Removed d # ps = (Removed d # ps1) @ Kept c' # ps2
          \<and> length (whole (Removed d # ps1)) = p"
        using q(2) by simp
      then show ?thesis by blast
    next
      assume "\<exists>ps1 e ps2. ps = ps1 @ Removed e # ps2 \<and> length (whole ps1) \<le> q
                   \<and> q < length (whole ps1) + length e"
      then obtain ps1 e ps2 where "ps = ps1 @ Removed e # ps2" "length (whole ps1) \<le> q"
        "q < length (whole ps1) + length e" by blast
      then have "Removed d # ps = (Removed d # ps1) @ Removed e # ps2
          \<and> length (whole (Removed d # ps1)) \<le> p
          \<and> p < length (whole (Removed d # ps1)) + length e"
        using q(2) by simp
      then show ?thesis by blast
    qed
  qed
qed

text \<open>
  In a text cut as the stripping cuts it, the opening brace of a tool-call span lies in a
  removed span, which is that span when it starts there.
\<close>

lemma keyed_position_removed:
  assumes w: "whole ps = pre @ d @ post" and d: "tool_span d"
    and r: "\<forall>e. Removed e \<in> set ps \<longrightarrow> tool_span e"
    and k: "\<forall>pre c post. ps = pre @ Kept c # post \<longrightarrow> \<not> keyed_candidate (c # whole post)"
  shows "\<exists>ps1 e ps2. ps = ps1 @ Removed e # ps2 \<and> length (whole ps1) \<le> length pre
           \<and> length pre < length (whole ps1) + length e
           \<and> (length (whole ps1) = length pre \<longrightarrow> e = d)"
proof -
  from d obtain ds where dd: "d = 123 # ds" and bd: "balance 1 False False ds = Some (length ds)"
    by (auto simp: tool_span_def split: list.splits)
  have lt: "length pre < length (whole ps)" using w dd by simp
  from part_at[OF lt] show ?thesis
  proof
    assume "\<exists>ps1 c ps2. ps = ps1 @ Kept c # ps2 \<and> length (whole ps1) = length pre"
    then obtain ps1 c ps2 where e: "ps = ps1 @ Kept c # ps2" and l: "length (whole ps1) = length pre"
      by blast
    from e w have "whole ps1 @ c # whole ps2 = pre @ d @ post" by (simp add: whole_append)
    with l have "c # whole ps2 = d @ post" by simp
    with tool_span_keyed[OF d, of post] have "keyed_candidate (c # whole ps2)" by simp
    with k e show ?thesis by blast
  next
    assume "\<exists>ps1 e ps2. ps = ps1 @ Removed e # ps2 \<and> length (whole ps1) \<le> length pre
                   \<and> length pre < length (whole ps1) + length e"
    then obtain ps1 e ps2 where e: "ps = ps1 @ Removed e # ps2"
      and l1: "length (whole ps1) \<le> length pre" and l2: "length pre < length (whole ps1) + length e"
      by blast
    have "e = d" if l: "length (whole ps1) = length pre"
    proof -
      from e w have "whole ps1 @ e @ whole ps2 = pre @ d @ post" by (simp add: whole_append)
      with l have eq: "e @ whole ps2 = d @ post" by simp
      from e r have "tool_span e" by simp
      then obtain es where ee: "e = 123 # es" and be: "balance 1 False False es = Some (length es)"
        by (auto simp: tool_span_def split: list.splits)
      from eq ee dd have eq': "es @ whole ps2 = ds @ post" by simp
      from balance_append[OF be, of "whole ps2"] balance_append[OF bd, of post] eq'
      have "length es = length ds" by simp
      with eq' have "es = ds" by (metis append_eq_append_conv)
      with ee dd show ?thesis by simp
    qed
    with e l1 l2 show ?thesis by blast
  qed
qed

lemma inline_scan_span:
  "inline_scan s = Some l \<Longrightarrow>
     \<exists>pre d post. s = pre @ d @ post \<and> tool_span d \<and> tool_calls_in d = Some l"
proof (induction s)
  case Nil
  then show ?case by simp
next
  case (Cons c cs)
  have later: "\<exists>pre d post. c # cs = pre @ d @ post \<and> tool_span d \<and> tool_calls_in d = Some l"
    if "inline_scan cs = Some l"
  proof -
    from Cons.IH[OF that] obtain pre d post where
      "cs = pre @ d @ post" "tool_span d" "tool_calls_in d = Some l" by blast
    then have "c # cs = (c # pre) @ d @ post \<and> tool_span d \<and> tool_calls_in d = Some l" by simp
    then show ?thesis by blast
  qed
  show ?case
  proof (cases "c = 123")
    case False
    with Cons.prems later show ?thesis by simp
  next
    case True
    show ?thesis
    proof (cases "balance 1 False False cs")
      case None
      with Cons.prems True later show ?thesis by simp
    next
      case (Some k)
      show ?thesis
      proof (cases "tool_calls_in (c # take k cs)")
        case None
        with Cons.prems True Some later show ?thesis by simp
      next
        case (Some l')
        with Cons.prems True \<open>balance 1 False False cs = Some k\<close> have ll: "l' = l" by simp
        from balance_le[OF \<open>balance 1 False False cs = Some k\<close>] have kl: "k \<le> length cs" .
        have "tool_span (c # take k cs)"
          using True balance_take[OF \<open>balance 1 False False cs = Some k\<close>] kl
            tool_calls_in_has[OF Some]
          by (simp add: tool_span_def)
        moreover have "c # cs = [] @ (c # take k cs) @ drop k cs" by simp
        ultimately show ?thesis using Some ll by blast
      qed
    qed
  qed
qed

lemma removed_any_keyed:
  assumes "Removed e \<in> set ps" "tool_span e"
  shows "any_keyed (whole ps)"
proof -
  from assms(1) obtain ps1 ps2 where "ps = ps1 @ Removed e # ps2" by (meson split_list)
  then have "whole ps = whole ps1 @ (e @ whole ps2)" by (simp add: whole_append)
  with tool_span_keyed[OF assms(2), of "whole ps2"] show ?thesis unfolding any_keyed_iff by blast
qed

lemma kept_whole: "\<forall>e. Removed e \<notin> set ps \<Longrightarrow> kept ps = whole ps"
  by (induction ps rule: whole.induct) auto

text \<open>
  C3, as stated: when the extraction returns a list, the stripping removes exactly the span
  the list was taken from, and when it returns \<^verbatim>\<open>null\<close>, the stripping returns its input,
  trimmed. Both halves fail, because the two functions do not look for the same thing: the
  extraction takes the first span whose \<^verbatim>\<open>tool_calls\<close> is an array, the stripping removes
  every span that has the key \<^verbatim>\<open>tool_calls\<close>, whatever its value. So a span whose
  \<^verbatim>\<open>tool_calls\<close> is a number is removed though the extraction returns \<^verbatim>\<open>null\<close>; where a
  second span follows, from which the list is taken, both are removed; and when the span
  from which the list is taken starts inside a string of a span with the key, only its
  beginning is removed.
\<close>

theorem stripping_without_array:
  \<open>extractToolInvocations sample_config 0 (js ''{"tool_calls":1}'') = Inr None
   \<and> removeToolJsonContent (js ''{"tool_calls":1}'') \<noteq> trim (js ''{"tool_calls":1}'')
   \<and> extractToolInvocations sample_config 0 (js ''a {"tool_calls":1} b {"tool_calls":[{"id":"x"}]} c'')
       = Inr (Some [JObj [(js ''id'', JStr (js ''x''))]])
   \<and> removeToolJsonContent (js ''a {"tool_calls":1} b {"tool_calls":[{"id":"x"}]} c'')
       = js ''a  b  c''
   \<and> extractToolInvocations sample_config 0 (js ''{"tool_calls":"{"}":0,"tool_calls":[]}'')
       = Inr (Some [])
   \<and> removeToolJsonContent (js ''{"tool_calls":"{"}":0,"tool_calls":[]}'')
       = js ''":0,"tool_calls":[]}''\<close>
  by code_simp

text \<open>
  C3, amended, for a text in which the fence pattern does not match. The stripping returns
  the text without its tool-call spans, trimmed: the text can be cut into kept characters
  and removed spans so that every removed span is a tool-call span (brace-balanced, and
  parsing to an object with the key \<^verbatim>\<open>tool_calls\<close>) and no kept character starts one. When
  the extraction returns a list that attempt 3 has not made, the list is taken from a
  tool-call span of the text; the opening brace of that span lies in a removed span, and
  that removed span is the span itself when it starts at that brace. And the stripping
  returns the trimmed input exactly when nothing is removed.
\<close>

theorem stripping_and_extraction:
  assumes "\<not> test re_fence text"
  shows "\<exists>ps. whole ps = text \<and> removeToolJsonContent text = trim (kept ps)
           \<and> (\<forall>e. Removed e \<in> set ps \<longrightarrow> tool_span e)
           \<and> (\<forall>pre c post. ps = pre @ Kept c # post \<longrightarrow> \<not> keyed_candidate (c # whole post))
           \<and> (\<forall>l. extractToolInvocations cfg now text = Inr (Some l) \<longrightarrow>
                 natural_language now (substring0 text (SCAN_LIMIT cfg)) = Inr (Some l) \<or>
                 (\<exists>pre d post. text = pre @ d @ post \<and> tool_span d \<and> tool_calls_in d = Some l
                    \<and> (\<exists>ps1 e ps2. ps = ps1 @ Removed e # ps2
                          \<and> length (whole ps1) \<le> length pre
                          \<and> length pre < length (whole ps1) + length e
                          \<and> (length (whole ps1) = length pre \<longrightarrow> e = d))))
           \<and> ((\<forall>e. Removed e \<notin> set ps) \<longleftrightarrow> removeToolJsonContent text = trim text)"
proof -
  have r: "removeToolJsonContent text = trim (strip_inline text)"
    using assms by (simp add: removeToolJsonContent_def replace_no_match)
  from strip_inline_parts[of "text"] obtain ps where ps: "whole ps = text" "strip_inline text = kept ps"
    "\<forall>e. Removed e \<in> set ps \<longrightarrow> tool_span e"
    "\<forall>pre c post. ps = pre @ Kept c # post \<longrightarrow> \<not> keyed_candidate (c # whole post)"
    by blast
  let ?sc = "substring0 text (SCAN_LIMIT cfg)"
  have E: "natural_language now ?sc = Inr (Some l) \<or>
                 (\<exists>pre d post. text = pre @ d @ post \<and> tool_span d \<and> tool_calls_in d = Some l
                    \<and> (\<exists>ps1 e ps2. ps = ps1 @ Removed e # ps2
                          \<and> length (whole ps1) \<le> length pre
                          \<and> length pre < length (whole ps1) + length e
                          \<and> (length (whole ps1) = length pre \<longrightarrow> e = d)))"
    if e: "extractToolInvocations cfg now text = Inr (Some l)" for l
  proof (cases "inline_scan ?sc")
    case None
    from e have ne: "text \<noteq> []" by (auto simp: extractToolInvocations_def)
    have nf: "matches re_fence ?sc = []" by (simp add: substring0_take no_fence_prefix[OF assms])
    from e ne nf None have "natural_language now ?sc = Inr (Some l)"
      by (simp add: extractToolInvocations_def Let_def)
    then show ?thesis by simp
  next
    case (Some l')
    from e have ne: "text \<noteq> []" by (auto simp: extractToolInvocations_def)
    have nf: "matches re_fence ?sc = []" by (simp add: substring0_take no_fence_prefix[OF assms])
    from e ne nf Some have "l' = l" by (simp add: extractToolInvocations_def Let_def)
    with Some inline_scan_span obtain pre d post where
      s: "?sc = pre @ d @ post" and d: "tool_span d" and t: "tool_calls_in d = Some l" by blast
    have "text = ?sc @ drop (nat (SCAN_LIMIT cfg)) text" by (simp add: substring0_take)
    with s have tx: "text = pre @ d @ (post @ drop (nat (SCAN_LIMIT cfg)) text)" by simp
    with ps(1) have w: "whole ps = pre @ d @ (post @ drop (nat (SCAN_LIMIT cfg)) text)" by simp
    from keyed_position_removed[OF w d ps(3) ps(4)] tx d t show ?thesis by blast
  qed
  have N: "(\<forall>e. Removed e \<notin> set ps) \<longleftrightarrow> removeToolJsonContent text = trim text"
  proof
    assume "\<forall>e. Removed e \<notin> set ps"
    from kept_whole[OF this] ps(1) ps(2) r show "removeToolJsonContent text = trim text" by simp
  next
    assume eq: "removeToolJsonContent text = trim text"
    show "\<forall>e. Removed e \<notin> set ps"
    proof (intro allI notI)
      fix e assume m: "Removed e \<in> set ps"
      with ps(3) have "tool_span e" by simp
      from removed_any_keyed[OF m this] ps(1) have "any_keyed text" by simp
      from strip_inline_keyed[OF this] have "braces (trim (strip_inline text)) < braces (trim text)"
        by (simp add: braces_trim)
      with eq r show False by simp
    qed
  qed
  from ps(1) ps(2) r ps(3) ps(4) E N show ?thesis by (intro exI[of _ ps]) simp
qed

theorem stripping_and_extraction_witness:
  \<open>\<not> test re_fence (js ''Sure. {"tool_calls":[{"id":"x"}]} Done'')
   \<and> extractToolInvocations sample_config 0 (js ''Sure. {"tool_calls":[{"id":"x"}]} Done'')
       = Inr (Some [JObj [(js ''id'', JStr (js ''x''))]])
   \<and> removeToolJsonContent (js ''Sure. {"tool_calls":[{"id":"x"}]} Done'') = js ''Sure.  Done''
   \<and> (\<exists>ps. whole ps = js ''Sure. {"tool_calls":[{"id":"x"}]} Done''
         \<and> removeToolJsonContent (js ''Sure. {"tool_calls":[{"id":"x"}]} Done'') = trim (kept ps)
         \<and> (\<exists>pre d post. js ''Sure. {"tool_calls":[{"id":"x"}]} Done'' = pre @ d @ post
               \<and> tool_span d
               \<and> tool_calls_in d = Some [JObj [(js ''id'', JStr (js ''x''))]]
               \<and> (\<exists>ps1 e ps2. ps = ps1 @ Removed e # ps2
                     \<and> length (whole ps1) \<le> length pre
                     \<and> length pre < length (whole ps1) + length e)))\<close>
proof -
  have a: \<open>\<not> test re_fence (js ''Sure. {"tool_calls":[{"id":"x"}]} Done'')\<close> by code_simp
  have b: \<open>extractToolInvocations sample_config 0 (js ''Sure. {"tool_calls":[{"id":"x"}]} Done'')
       = Inr (Some [JObj [(js ''id'', JStr (js ''x''))]])\<close>
    by code_simp
  have c: \<open>removeToolJsonContent (js ''Sure. {"tool_calls":[{"id":"x"}]} Done'') = js ''Sure.  Done''\<close>
    by code_simp
  have d: \<open>natural_language 0
             (substring0 (js ''Sure. {"tool_calls":[{"id":"x"}]} Done'') (SCAN_LIMIT sample_config))
           \<noteq> Inr (Some [JObj [(js ''id'', JStr (js ''x''))]])\<close>
    by code_simp
  from stripping_and_extraction [OF a, of sample_config 0] b d
  have \<open>\<exists>ps. whole ps = js ''Sure. {"tool_calls":[{"id":"x"}]} Done''
         \<and> removeToolJsonContent (js ''Sure. {"tool_calls":[{"id":"x"}]} Done'') = trim (kept ps)
         \<and> (\<exists>pre d post. js ''Sure. {"tool_calls":[{"id":"x"}]} Done'' = pre @ d @ post
               \<and> tool_span d
               \<and> tool_calls_in d = Some [JObj [(js ''id'', JStr (js ''x''))]]
               \<and> (\<exists>ps1 e ps2. ps = ps1 @ Removed e # ps2
                     \<and> length (whole ps1) \<le> length pre
                     \<and> length pre < length (whole ps1) + length e))\<close>
    by blast
  with a b c show ?thesis by blast
qed

section \<open>The SSE parser and the chunking of its input\<close>

lemma decode_append:
  "decode st (a @ b) =
     (let (o1, s1) = decode st a; (o2, s2) = decode s1 b in (o1 @ o2, s2))"
  by (induction a arbitrary: st) (auto simp: Let_def split: prod.splits)

lemma pieces_nonempty: "pieces c s \<noteq> []"
  by (cases s) auto

lemma split_pieces: "split s [c] = pieces c s"
proof (induction s)
  case Nil
  show ?case by (subst split.simps) simp
next
  case (Cons x xs)
  have sx: "split xs [c] =
      (case indexOf xs [c] of None \<Rightarrow> [xs]
       | Some k \<Rightarrow> take k xs # split (drop (k + 1) xs) [c])"
    by (subst split.simps) (simp split: option.splits)
  have sxx: "split (x # xs) [c] =
      (case indexOf (x # xs) [c] of None \<Rightarrow> [x # xs]
       | Some k \<Rightarrow> take k (x # xs) # split (drop (k + 1) (x # xs)) [c])"
    by (subst split.simps) (simp split: option.splits)
  show ?case
  proof (cases "x = c")
    case True
    from True Cons sxx show ?thesis by simp
  next
    case False
    have "pieces c xs = split xs [c]" using Cons by simp
    then show ?thesis using False
      by (cases "indexOf xs [c]") (simp_all add: sxx sx)
  qed
qed

lemma pieces_append:
  "pieces c (x @ y) = butlast (pieces c x) @ pieces c (last (pieces c x) @ y)"
proof (induction x)
  case Nil
  then show ?case by simp
next
  case (Cons a x)
  let ?L = "pieces c x"
  let ?R = "pieces c (last ?L @ y)"
  have L: "?L \<noteq> []" and R: "?R \<noteq> []" by (rule pieces_nonempty)+
  show ?case
  proof (cases "a = c")
    case True
    with Cons L show ?thesis by simp
  next
    case False
    show ?thesis
    proof (cases "tl ?L = []")
      case True
      with L have l: "?L = [hd ?L]" by (cases ?L) auto
      then have bl: "butlast ?L = []" and la: "last ?L = hd ?L"
        by (metis butlast.simps(2) list.discI, metis last.simps)
      from Cons bl la have "pieces c (x @ y) = pieces c (hd ?L @ y)" by simp
      with False True l bl la show ?thesis by simp
    next
      case ne: False
      with L have bl: "butlast ?L = hd ?L # butlast (tl ?L)" and la: "last (tl ?L) = last ?L"
        by (cases ?L; simp)+
      from Cons bl have "pieces c (x @ y) = hd ?L # (butlast (tl ?L) @ ?R)" by simp
      with False ne bl la show ?thesis by simp
    qed
  qed
qed

lemma pieces_no_sep: "c \<notin> set s \<Longrightarrow> pieces c s = [s]"
  by (induction s) auto

lemma last_pieces_no_sep: "c \<notin> set (last (pieces c s))"
proof (induction s)
  case Nil
  then show ?case by simp
next
  case (Cons x xs)
  have L: "pieces c xs \<noteq> []" by (rule pieces_nonempty)
  show ?case
  proof (cases "x = c")
    case True
    with Cons L show ?thesis by simp
  next
    case False
    show ?thesis
    proof (cases "tl (pieces c xs) = []")
      case True
      with L have "pieces c xs = [hd (pieces c xs)]" by (cases "pieces c xs") auto
      then have "last (pieces c xs) = hd (pieces c xs)" by (metis last.simps)
      with Cons False True show ?thesis by simp
    next
      case ne: False
      with L have "last (tl (pieces c xs)) = last (pieces c xs)" by (cases "pieces c xs") auto
      with Cons False ne show ?thesis by simp
    qed
  qed
qed

lemma iterEvents_loop_chunks:
  "10 \<notin> set buffer \<Longrightarrow>
   iterEvents_loop buffer st (map Chunk cs) =
     (concat (map parse_line
        (butlast (split (buffer @ fst (decode st (concat cs))) [10]))), None)"
proof (induction cs arbitrary: buffer st)
  case Nil
  then show ?case by (simp add: split_pieces pieces_no_sep)
next
  case (Cons v cs)
  obtain decoded st' where d: "decode st v = (decoded, st')" by (cases "decode st v")
  obtain decoded2 st2 where d2: "decode st' (concat cs) = (decoded2, st2)"
    by (cases "decode st' (concat cs)")
  have dd: "fst (decode st (v @ concat cs)) = decoded @ decoded2"
    using d d2 by (simp add: decode_append)
  let ?lines = "split (buffer @ decoded) [10]"
  have nl: "10 \<notin> set (last ?lines)" by (simp add: split_pieces last_pieces_no_sep)
  have "split ((buffer @ decoded) @ decoded2) [10]
        = butlast ?lines @ split (last ?lines @ decoded2) [10]"
    by (simp only: split_pieces pieces_append[of 10 "buffer @ decoded" decoded2])
  then have bl: "butlast (split (buffer @ decoded @ decoded2) [10])
        = butlast ?lines @ butlast (split (last ?lines @ decoded2) [10])"
    by (simp add: butlast_append split_pieces pieces_nonempty)
  show ?case
    using Cons.IH[OF nl, of st'] d d2
    by (simp add: Let_def dd bl)
qed

lemma iterEvents_complete_lines:
  "iterEvents (map Chunk cs) =
     (concat (map parse_line
        (butlast (split (fst (decode utf8_init (concat cs))) [10]))), None)"
  using iterEvents_loop_chunks[of "[]" utf8_init cs] by (simp add: iterEvents_def)

text \<open>
  C2: two sequences of reads that carry the same bytes, split at any offsets (inside a
  line, inside a character), give the same events. By \<open>iterEvents_complete_lines\<close> the
  events are those of the complete lines of the whole decoded text; the text behind the
  last line feed is kept in the buffer and never decoded.
\<close>

theorem iterEvents_chunking:
  assumes "concat cs = concat cs'"
  shows "iterEvents (map Chunk cs) = iterEvents (map Chunk cs')"
  by (simp add: iterEvents_complete_lines assms)

theorem iterEvents_chunking_witness:
  \<open>concat [[100, 97, 116, 97, 58, 32, 34, 0xC3], [0xA9, 34, 10, 105, 100, 58]]
     = concat [[100, 97, 116, 97, 58, 32, 34, 0xC3, 0xA9, 34, 10], [105, 100, 58 :: byte]]
   \<and> iterEvents (map Chunk [[100, 97, 116, 97, 58, 32, 34, 0xC3], [0xA9, 34, 10, 105, 100, 58]])
     = iterEvents (map Chunk [[100, 97, 116, 97, 58, 32, 34, 0xC3, 0xA9, 34, 10], [105, 100, 58]])
   \<and> iterEvents (map Chunk [[100, 97, 116, 97, 58, 32, 34, 0xC3, 0xA9, 34, 10], [105, 100, 58]])
     = ([DataJson (JStr [233]) [34, 233, 34]], None)\<close>
proof -
  have h: \<open>concat [[100, 97, 116, 97, 58, 32, 34, 0xC3], [0xA9, 34, 10, 105, 100, 58]]
     = concat [[100, 97, 116, 97, 58, 32, 34, 0xC3, 0xA9, 34, 10], [105, 100, 58 :: byte]]\<close>
    by simp
  have v: \<open>iterEvents (map Chunk [[100, 97, 116, 97, 58, 32, 34, 0xC3, 0xA9, 34, 10], [105, 100, 58]])
     = ([DataJson (JStr [233]) [34, 233, 34]], None)\<close>
    by code_simp
  from iterEvents_chunking [OF h] h v show ?thesis by blast
qed

section \<open>Idempotence of the thinking-content transformer\<close>

text \<open>
  C4, as stated: \<^verbatim>\<open>transformThinkingContent\<close> applied twice gives what it gives
  applied once, under every display mode. This fails, in two ways. Deleting the inner
  \<^verbatim>\<open><Full>\<close> of \<^verbatim>\<open><<Full>Full>\<close> leaves a new \<^verbatim>\<open><Full>\<close>, which only a second pass deletes.
  And of two quote prefixes at the start of a line only the first is deleted, since the
  second does not start the line before the first is gone.
\<close>

theorem transformThinkingContent_not_idempotent:
  \<open>transformThinkingContent (js ''think'')
      (transformThinkingContent (js ''think'') (js ''<<Full>Full>''))
     \<noteq> transformThinkingContent (js ''think'') (js ''<<Full>Full>'')
   \<and> transformThinkingContent (js ''strip'')
      (transformThinkingContent (js ''strip'') (js ''<<Full>Full>''))
     \<noteq> transformThinkingContent (js ''strip'') (js ''<<Full>Full>'')
   \<and> transformThinkingContent (js ''raw'')
      (transformThinkingContent (js ''raw'') (js ''<<Full>Full>''))
     \<noteq> transformThinkingContent (js ''raw'') (js ''<<Full>Full>'')
   \<and> transformThinkingContent (js ''think'') (js ''> > nested'') = js ''> nested''
   \<and> transformThinkingContent (js ''think'') (js ''> nested'') = js ''nested''\<close>
  by code_simp

text \<open>
  What follows shows that the transformer does what is expected of it, and is idempotent,
  on the texts in which the markers stand apart from each other: the texts of well-formed
  lists of pieces. Every replacement is followed through such a text, piece by piece.
\<close>

lemma js_simps [simp]:
  "js [] = []"
  "js (x # xs) = of_char x # js xs"
  by (simp_all add: js_def)

lemma stage0: "stage 0 mode t = source t"
  by (cases t) auto

lemma stage7: "stage 7 mode t = shown mode t"
  by (cases t) auto

lemma fixed_point:
  assumes mf: "marker_free mode y" and ty: "trim y = y"
  shows "transformThinkingContent mode y = y"
  using mf unfolding marker_free_def transformThinkingContent_def Let_def
  by (simp add: replace_no_match ty split: if_splits)

subsection \<open>A scan through a text of pieces\<close>

lemma scan_indep:
  "\<forall>p p' s. m p s = m p' s \<Longrightarrow> scan m p s = scan m p' s"
proof (induction s arbitrary: p p' rule: length_induct)
  case (1 s)
  show ?case
  proof (cases s)
    case Nil
    then show ?thesis by simp
  next
    case (Cons c cs)
    from 1(2) have e: "m p (c # cs) = m p' (c # cs)" by blast
    have a: "scan m q t = scan m q' t" if "length t < length s" for q q' t
      using 1(1) that 1(2) by blast
    have l1: "length cs < length s" using Cons by simp
    have l2: "length (drop n (c # cs)) < length s" if "0 < n" for n using Cons that by simp
    show ?thesis
    proof (cases "m p' (c # cs)")
      case None
      with e Cons a[OF l1] show ?thesis by simp
    next
      case (Some v)
      obtain n x where v: "v = (n, x)" by (cases v)
      show ?thesis
      proof (cases "0 < n")
        case True
        with Some v e Cons a[OF l2[OF True]] show ?thesis by simp
      next
        case False
        with Some v e Cons a[OF l1] show ?thesis by simp
      qed
    qed
  qed
qed

lemma scan_inert:
  assumes "\<forall>p p' s. m p s = m p' s" and "inert_in m g"
  shows "scan m p (g @ R) = map Lit g @ scan m None R"
proof -
  from assms(2) have "\<forall>k1 c k2. g = k1 @ c # k2 \<longrightarrow> m None (c # k2 @ R) = None"
    by (simp add: inert_in_def)
  then show ?thesis
  proof (induction g arbitrary: p)
    case Nil
    show ?case using scan_indep[OF assms(1)] by simp
  next
    case (Cons c g)
    from Cons.prems have "m None (c # g @ R) = None" by (metis append_Nil)
    with assms(1) have n: "m p (c # g @ R) = None" by metis
    have "\<forall>k1 c' k2. g = k1 @ c' # k2 \<longrightarrow> m None (c' # k2 @ R) = None"
    proof (intro allI impI)
      fix k1 c' k2 assume "g = k1 @ c' # k2"
      then have "c # g = (c # k1) @ c' # k2" by simp
      with Cons.prems show "m None (c' # k2 @ R) = None" by blast
    qed
    from Cons.IH[OF this] n show ?case by simp
  qed
qed

lemma scan_hit:
  assumes "\<forall>p p' s. m p s = m p' s" and "hit_in m g"
  shows "scan m p (g @ R) = Match () # scan m None R"
proof -
  from assms(2) obtain c cs where g: "g = c # cs" by (cases g) (auto simp: hit_in_def)
  from assms have "m p (g @ R) = Some (length g, ())" unfolding hit_in_def by metis
  with g have "scan m p (g @ R) = Match () # scan m (Some (last (take (length g) (g @ R)))) R"
    by simp
  with scan_indep[OF assms(1)] show ?thesis by metis
qed

lemma lits_out: "concat (map (\<lambda>p. case p of Lit c \<Rightarrow> [c] | Match x \<Rightarrow> f x) (map Lit g)) = g"
  by (induction g) auto

lemma lits_matches: "concat (map (\<lambda>p. case p of Lit c \<Rightarrow> [] | Match x \<Rightarrow> [x]) (map Lit g)) = []"
  by (induction g) auto

lemma replace_tokens:
  assumes indep: "\<forall>p p' s. m p s = m p' s"
    and tok: "\<forall>t\<in>set ts. (hit_in m (r t) \<and> r' t = f ()) \<or> (inert_in m (r t) \<and> r' t = r t)"
  shows "replace m f (concat (map r ts)) = concat (map r' ts)"
proof -
  have "concat (map (\<lambda>p. case p of Lit c \<Rightarrow> [c] | Match x \<Rightarrow> f x) (scan m p (concat (map r ts))))
        = concat (map r' ts)" for p
    using tok
  proof (induction ts arbitrary: p)
    case Nil
    then show ?case by simp
  next
    case (Cons t ts)
    let ?R = "concat (map r ts)"
    from Cons.prems have rest:
      "\<forall>t\<in>set ts. (hit_in m (r t) \<and> r' t = f ()) \<or> (inert_in m (r t) \<and> r' t = r t)"
      by simp
    from Cons.prems consider "hit_in m (r t)" "r' t = f ()" | "inert_in m (r t)" "r' t = r t"
      by auto
    then show ?case
    proof cases
      case 1
      from scan_hit[OF indep 1(1), of p ?R] 1(2) Cons.IH[OF rest, of None] show ?thesis by simp
    next
      case 2
      from scan_inert[OF indep 2(1), of p ?R] 2(2) Cons.IH[OF rest, of None] show ?thesis
        by (simp add: lits_out del: map_map)
    qed
  qed
  then show ?thesis by (simp add: replace_def)
qed

lemma no_match_tokens:
  assumes indep: "\<forall>p p' s. m p s = m p' s" and tok: "\<forall>t\<in>set ts. inert_in m (r t)"
  shows "\<not> test m (concat (map r ts))"
proof -
  have "scan m p (concat (map r ts)) = map Lit (concat (map r ts))" for p
    using tok
  proof (induction ts arbitrary: p)
    case Nil
    then show ?case by simp
  next
    case (Cons t ts)
    then have "inert_in m (r t)" by simp
    from scan_inert[OF indep this, of p "concat (map r ts)"] Cons show ?case by simp
  qed
  then show ?thesis by (simp add: test_def matches_def lits_matches del: map_map)
qed

subsection \<open>The patterns that start with \<^verbatim>\<open><\<close>\<close>

lemma differs_startsWith: "differs g P \<Longrightarrow> \<not> startsWith (g @ R) P"
  by (induction g P rule: differs.induct) auto

lemma safe_inert:
  assumes guard: "\<forall>p s. \<not> startsWith s (60 # P) \<longrightarrow> m p s = None" and g: "safe (60 # P) g"
  shows "inert_in m g"
  unfolding inert_in_def
proof (intro allI impI)
  fix k1 c k2 R assume e: "g = k1 @ c # k2"
  have "\<not> startsWith (c # k2 @ R) (60 # P)"
  proof (cases "c = 60")
    case False
    then show ?thesis by simp
  next
    case True
    with e g have h: "hd g = 60" "60 \<notin> set (tl g)" "differs g (60 # P)"
      by (auto simp: safe_def)
    have "k1 = []"
    proof (cases k1)
      case (Cons q qs)
      with e have "tl g = qs @ c # k2" by simp
      with True h(2) show ?thesis by simp
    qed simp
    with e have "g = c # k2" by simp
    with differs_startsWith[OF h(3), of R] show ?thesis by simp
  qed
  with guard show "m None (c # k2 @ R) = None" by blast
qed

lemma lit_indep: "\<forall>p p' s. lit P p s = lit P p' s"
  by (simp add: lit_def)

lemma lit_guard: "\<forall>p s. \<not> startsWith s P \<longrightarrow> lit P p s = None"
  by (simp add: lit_def)

lemma startsWith_self: "startsWith (P @ R) P"
  by (induction P) auto

lemma lit_hit: "P \<noteq> [] \<Longrightarrow> hit_in (lit P) P"
  by (simp add: hit_in_def lit_def startsWith_self)

lemma indexOf_skip:
  "c \<notin> set s \<Longrightarrow>
   indexOf (s @ c # t) (c # P) = map_option (\<lambda>k. length s + k) (indexOf (c # t) (c # P))"
  by (induction s) (auto simp: option.map_comp comp_def)

lemma re_summary_indep: "\<forall>p p' s. re_summary p s = re_summary p' s"
  by (simp add: re_summary_def)

lemma re_summary_guard: "\<forall>p s. \<not> startsWith s (js ''<summary>'') \<longrightarrow> re_summary p s = None"
  by (simp add: re_summary_def)

lemma re_summary_hit:
  assumes "60 \<notin> set s"
  shows "hit_in re_summary (js ''<summary>'' @ s @ js ''</summary>'')"
proof -
  have "indexOf (s @ js ''</summary>'' @ R) (js ''</summary>'') = Some (length s)" for R
    using indexOf_skip[OF assms, of "js ''/summary>'' @ R" "js ''/summary>''"]
    by (simp add: startsWith_self)
  then show ?thesis
    by (simp add: hit_in_def re_summary_def startsWith_self)
qed

lemma re_details_indep: "\<forall>p p' s. re_details p s = re_details p' s"
  by (simp add: re_details_def)

lemma re_details_guard: "\<forall>p s. \<not> startsWith s (js ''<details'') \<longrightarrow> re_details p s = None"
  by (simp add: re_details_def)

lemma re_details_hit:
  assumes "62 \<notin> set a"
  shows "hit_in re_details (js ''<details'' @ a @ js ''>'')"
proof -
  have "indexOf (a @ js ''>'' @ R) (js ''>'') = Some (length a)" for R
    using indexOf_skip[OF assms, of "R" "[]"] by simp
  then show ?thesis
    by (simp add: hit_in_def re_details_def startsWith_self)
qed

lemma ok_details:
  "list_all (\<lambda>c. c \<noteq> 60 \<and> c \<noteq> 62 \<and> \<not> is_line_terminator c) a \<Longrightarrow>
     60 \<notin> set a \<and> 62 \<notin> set a \<and> (\<forall>c\<in>set a. \<not> is_line_terminator c)"
  by (induction a) auto

lemma list_all_notin: "list_all (\<lambda>c. c \<noteq> x) s \<Longrightarrow> x \<notin> set s"
  by (induction s) auto

lemma tags_nth: "n < 6 \<Longrightarrow> tags ! n \<in> set tags"
proof -
  assume "n < 6"
  moreover have "length tags = 6" by (simp add: tags_def)
  ultimately show ?thesis by (simp only: nth_mem)
qed

text \<open>A run of text is safe from every pattern.\<close>

lemma text_safe:
  assumes "token_ok (Text g)" "n < 6"
  shows "safe (tags ! n) g"
proof (cases "hd g = 60")
  case True
  with assms(1) have "list_all (differs g) tags" by simp
  with tags_nth[OF assms(2)] have "differs g (tags ! n)" by (simp add: list_all_iff)
  with True assms(1) show ?thesis by (simp add: safe_def)
next
  case False
  with assms(1) have "60 \<notin> set g" by (cases g) auto
  then show ?thesis by (simp add: safe_def)
qed

text \<open>A piece that a replacement does not change is safe from its pattern.\<close>

lemma stage_safe:
  assumes "token_ok t" "n < 4 \<or> (n < 6 \<and> (mode = js ''think'' \<or> mode = js ''strip''))"
    and "stage (Suc n) mode t = stage n mode t"
  shows "safe (tags ! n) (stage n mode t)"
proof (cases "\<exists>g. t = Text g")
  case True
  then obtain g where "t = Text g" ..
  with assms(1,2) text_safe[of g n] show ?thesis by auto
next
  case nt: False
  from assms(2) consider "n = 0" | "n = 1" | "n = 2" | "n = 3"
    | "n = 4" "mode = js ''think'' \<or> mode = js ''strip''"
    | "n = 5" "mode = js ''think'' \<or> mode = js ''strip''" by linarith
  then show ?thesis
  proof cases
    case 1
    with assms(1,3) nt show ?thesis
      by (cases t) (auto simp: safe_def tags_def dest!: ok_details list_all_notin split: if_splits)
  next
    case 2
    with assms(1,3) nt show ?thesis
      by (cases t) (auto simp: safe_def tags_def dest!: ok_details list_all_notin split: if_splits)
  next
    case 3
    with assms(1,3) nt show ?thesis
      by (cases t) (auto simp: safe_def tags_def dest!: ok_details list_all_notin split: if_splits)
  next
    case 4
    with assms(1,3) nt show ?thesis
      by (cases t) (auto simp: safe_def tags_def dest!: ok_details list_all_notin split: if_splits)
  next
    case 5
    with assms(1,3) nt show ?thesis
      by (cases t) (auto simp: safe_def tags_def dest!: ok_details list_all_notin split: if_splits)
  next
    case 6
    with assms(1,3) nt show ?thesis
      by (cases t) (auto simp: safe_def tags_def dest!: ok_details list_all_notin split: if_splits)
  qed
qed

text \<open>What is left of a piece is safe from every pattern that is applied under the mode.\<close>

lemma shown_safe:
  assumes "token_ok t" "n < 4 \<or> (n < 6 \<and> (mode = js ''think'' \<or> mode = js ''strip''))"
  shows "safe (tags ! n) (shown mode t)"
proof (cases "\<exists>g. t = Text g")
  case True
  then obtain g where "t = Text g" ..
  with assms text_safe[of g n] show ?thesis by auto
next
  case nt: False
  from assms(2) consider "n = 0" | "n = 1" | "n = 2" | "n = 3"
    | "n = 4" "mode = js ''think'' \<or> mode = js ''strip''"
    | "n = 5" "mode = js ''think'' \<or> mode = js ''strip''" by linarith
  then show ?thesis
  proof cases
    case 1
    with assms(1) nt show ?thesis
      by (cases t) (auto simp: safe_def tags_def dest!: ok_details)
  next
    case 2
    with assms(1) nt show ?thesis
      by (cases t) (auto simp: safe_def tags_def dest!: ok_details)
  next
    case 3
    with assms(1) nt show ?thesis
      by (cases t) (auto simp: safe_def tags_def dest!: ok_details)
  next
    case 4
    with assms(1) nt show ?thesis
      by (cases t) (auto simp: safe_def tags_def dest!: ok_details)
  next
    case 5
    with assms(1) nt show ?thesis
      by (cases t) (auto simp: safe_def tags_def dest!: ok_details)
  next
    case 6
    with assms(1) nt show ?thesis
      by (cases t) (auto simp: safe_def tags_def dest!: ok_details)
  qed
qed

lemma tags_head: "n < 6 \<Longrightarrow> \<exists>P. tags ! n = 60 # P"
proof -
  assume "n < 6"
  then consider "n = 0" | "n = 1" | "n = 2" | "n = 3" | "n = 4" | "n = 5" by linarith
  then show ?thesis by cases (simp_all add: tags_def)
qed

text \<open>
  One of the first six replacements, on a text of pieces: the pieces that it changes are
  matched as a whole, the others are safe from its pattern.
\<close>

lemma guarded_pass:
  assumes indep: "\<forall>p p' s. m p s = m p' s"
    and guard: "\<forall>p s. \<not> startsWith s (tags ! n) \<longrightarrow> m p s = None"
    and n: "n < 4 \<or> (n < 6 \<and> (mode = js ''think'' \<or> mode = js ''strip''))"
    and ok: "\<forall>t\<in>set ts. token_ok t"
    and hit: "\<forall>t\<in>set ts. stage (Suc n) mode t \<noteq> stage n mode t \<longrightarrow>
                hit_in m (stage n mode t) \<and> stage (Suc n) mode t = f ()"
  shows "replace m f (concat (map (stage n mode) ts)) = concat (map (stage (Suc n) mode) ts)"
proof (rule replace_tokens[OF indep], rule ballI)
  fix t assume t: "t \<in> set ts"
  from n have "n < 6" by auto
  from tags_head[OF this] obtain P where P: "tags ! n = 60 # P" by blast
  show "(hit_in m (stage n mode t) \<and> stage (Suc n) mode t = f ()) \<or>
        (inert_in m (stage n mode t) \<and> stage (Suc n) mode t = stage n mode t)"
  proof (cases "stage (Suc n) mode t = stage n mode t")
    case True
    from stage_safe[OF _ n True] ok t have "safe (60 # P) (stage n mode t)" by (simp add: P)
    from safe_inert[OF _ this, of m] guard True show ?thesis by (simp add: P)
  next
    case False
    with hit t show ?thesis by blast
  qed
qed

lemma pass0:
  assumes "\<forall>t\<in>set ts. token_ok t"
  shows "replace re_summary (\<lambda>_. []) (concat (map (stage 0 mode) ts))
         = concat (map (stage 1 mode) ts)"
proof -
  have "hit_in re_summary (stage 0 mode t) \<and> stage (Suc 0) mode t = []"
    if "t \<in> set ts" "stage (Suc 0) mode t \<noteq> stage 0 mode t" for t
  proof (cases t)
    case (Summary s)
    with assms that(1) have "token_ok (Summary s)" by blast
    then have "60 \<notin> set s" by (simp add: list_all_notin)
    from re_summary_hit[OF this] Summary show ?thesis by simp
  qed (use that(2) in simp_all)
  then show ?thesis
    using guarded_pass[where m = re_summary and n = 0 and mode = mode and ts = ts
        and f = "\<lambda>_. []", OF re_summary_indep] re_summary_guard assms
    by (simp add: tags_def)
qed

lemma pass1:
  assumes "\<forall>t\<in>set ts. token_ok t"
  shows "replace (lit (js ''</thinking>'')) (\<lambda>_. []) (concat (map (stage 1 mode) ts))
         = concat (map (stage 2 mode) ts)"
proof -
  have "hit_in (lit (js ''</thinking>'')) (stage 1 mode t) \<and> stage (Suc 1) mode t = []"
    if "stage (Suc 1) mode t \<noteq> stage 1 mode t" for t
    using that lit_hit[of "js ''</thinking>''"] by (cases t) simp_all
  then show ?thesis
    using guarded_pass[where m = "lit (js ''</thinking>'')" and n = 1 and mode = mode and ts = ts
        and f = "\<lambda>_. []", OF lit_indep] lit_guard assms
    by (simp add: tags_def numeral_2_eq_2)
qed

lemma pass2:
  assumes "\<forall>t\<in>set ts. token_ok t"
  shows "replace (lit (js ''<Full>'')) (\<lambda>_. []) (concat (map (stage 2 mode) ts))
         = concat (map (stage 3 mode) ts)"
proof -
  have "hit_in (lit (js ''<Full>'')) (stage 2 mode t) \<and> stage (Suc 2) mode t = []"
    if "stage (Suc 2) mode t \<noteq> stage 2 mode t" for t
    using that lit_hit[of "js ''<Full>''"] by (cases t) simp_all
  then show ?thesis
    using guarded_pass[where m = "lit (js ''<Full>'')" and n = 2 and mode = mode and ts = ts
        and f = "\<lambda>_. []", OF lit_indep] lit_guard assms
    by (simp add: tags_def eval_nat_numeral)
qed

lemma pass3:
  assumes "\<forall>t\<in>set ts. token_ok t"
  shows "replace (lit (js ''</Full>'')) (\<lambda>_. []) (concat (map (stage 3 mode) ts))
         = concat (map (stage 4 mode) ts)"
proof -
  have "hit_in (lit (js ''</Full>'')) (stage 3 mode t) \<and> stage (Suc 3) mode t = []"
    if "stage (Suc 3) mode t \<noteq> stage 3 mode t" for t
    using that lit_hit[of "js ''</Full>''"] by (cases t) simp_all
  then show ?thesis
    using guarded_pass[where m = "lit (js ''</Full>'')" and n = 3 and mode = mode and ts = ts
        and f = "\<lambda>_. []", OF lit_indep] lit_guard assms
    by (simp add: tags_def eval_nat_numeral)
qed

lemma pass4:
  assumes "\<forall>t\<in>set ts. token_ok t" "mode = js ''think'' \<or> mode = js ''strip''"
  shows "replace re_details (\<lambda>_. shown mode (Details [])) (concat (map (stage 4 mode) ts))
         = concat (map (stage 5 mode) ts)"
proof -
  have "hit_in re_details (stage 4 mode t) \<and> stage (Suc 4) mode t = shown mode (Details [])"
    if "t \<in> set ts" "stage (Suc 4) mode t \<noteq> stage 4 mode t" for t
  proof (cases t)
    case (Details a)
    with assms(1) that(1) have "token_ok (Details a)" by blast
    with ok_details have "62 \<notin> set a" by simp
    from re_details_hit[OF this] Details assms(2) show ?thesis by auto
  qed (use that(2) in simp_all)
  then show ?thesis
    using guarded_pass[where m = re_details and n = 4 and mode = mode and ts = ts
        and f = "\<lambda>_. shown mode (Details [])", OF re_details_indep]
      re_details_guard assms
    by (simp add: tags_def eval_nat_numeral)
qed

lemma pass5:
  assumes "\<forall>t\<in>set ts. token_ok t" "mode = js ''think'' \<or> mode = js ''strip''"
  shows "replace (lit (js ''</details>'')) (\<lambda>_. shown mode DetailsClose)
           (concat (map (stage 5 mode) ts))
         = concat (map (stage 6 mode) ts)"
proof -
  have "hit_in (lit (js ''</details>'')) (stage 5 mode t)
        \<and> stage (Suc 5) mode t = shown mode DetailsClose"
    if "stage (Suc 5) mode t \<noteq> stage 5 mode t" for t
    using that lit_hit[of "js ''</details>''"] by (cases t) simp_all
  then show ?thesis
    using guarded_pass[where m = "lit (js ''</details>'')" and n = 5 and mode = mode and ts = ts
        and f = "\<lambda>_. shown mode DetailsClose", OF lit_indep]
      lit_guard assms
    by (simp add: tags_def eval_nat_numeral)
qed

subsection \<open>The quote prefixes\<close>

lemma re_quote_None: "c = 62 \<longrightarrow> \<not> line_start p \<Longrightarrow> re_quote p (c # s) = None"
  by (auto simp: re_quote_def line_start_def split: option.splits)

lemma scan_quote_calm:
  "calm p g \<Longrightarrow> scan re_quote p (g @ R) = map Lit g @ scan re_quote (after p g) R"
proof (induction g arbitrary: p)
  case Nil
  then show ?case by (simp add: after_def)
next
  case (Cons c g)
  then have n: "re_quote p (c # g @ R) = None" by (simp add: re_quote_None)
  from Cons.prems have "calm (Some c) g" by simp
  from Cons.IH[OF this] n show ?case by (simp add: after_def)
qed

lemma calm_append: "calm p (g @ h) \<longleftrightarrow> calm p g \<and> calm (after p g) h"
  by (induction g arbitrary: p) (auto simp: after_def)

lemma calm_free: "62 \<notin> set g \<Longrightarrow> calm p g"
  by (induction g arbitrary: p) auto

lemma quiet_Nil: "quiet []"
  by (simp add: quiet_def)

lemma quiet_free: "62 \<notin> set g \<Longrightarrow> quiet g"
  by (simp add: quiet_def calm_free)

lemma quiet_tag:
  "c \<noteq> 62 \<Longrightarrow> 62 \<notin> set g \<Longrightarrow> \<not> is_line_terminator (last (c # g)) \<Longrightarrow> quiet (c # g @ [62])"
proof -
  assume a: "c \<noteq> 62" "62 \<notin> set g" "\<not> is_line_terminator (last (c # g))"
  have "calm (Some c) (g @ [62])"
    using a by (auto simp: calm_append calm_free after_def line_start_def)
  with a(1) show ?thesis by (simp add: quiet_def)
qed

lemma quiet_concat: "\<forall>t\<in>set ts. quiet (r t) \<Longrightarrow> calm p (concat (map r ts))"
  by (induction ts arbitrary: p) (auto simp: calm_append quiet_def)

lemma calm_no_quote: "calm None s \<Longrightarrow> \<not> test re_quote s"
  using scan_quote_calm[of None s "[]"] by (simp add: test_def matches_def lits_matches del: map_map)

lemma scan_nl_quote_calm: "calm p s \<Longrightarrow> scan (lit nl_quote) q s = map Lit s"
proof (induction s arbitrary: p q)
  case Nil
  then show ?case by simp
next
  case (Cons c s)
  have "\<not> startsWith (c # s) nl_quote"
  proof
    assume "startsWith (c # s) nl_quote"
    then obtain r where "c = 10" "s = 62 # r" by (cases s) (auto simp: nl_quote_def)
    with Cons.prems show False by (simp add: line_start_def is_line_terminator_def)
  qed
  then have "lit nl_quote q (c # s) = None" by (simp add: lit_def)
  moreover from Cons.prems have "calm (Some c) s" by simp
  ultimately show ?case using Cons.IH by simp
qed

lemma calm_no_nl_quote: "calm p s \<Longrightarrow> \<not> test (lit nl_quote) s"
  using scan_nl_quote_calm[of p s None] by (simp add: test_def matches_def lits_matches del: map_map)

lemma quiet_stage6:
  assumes "token_ok t" "t \<noteq> Quote"
  shows "quiet (stage 6 mode t)"
proof (cases t)
  case (Plain c)
  with assms show ?thesis by (simp add: quiet_free)
next
  case (Text g)
  with assms(1) obtain c g' where "g = c # g'" "c \<noteq> 62" "calm (Some c) g'" by (cases g) auto
  with Text show ?thesis by (simp add: quiet_def)
next
  case (Details a)
  with assms ok_details have a: "62 \<notin> set a" "\<forall>c\<in>set a. \<not> is_line_terminator c" by auto
  have "quiet (60 # (js ''details'' @ a) @ [62])"
    using a by (intro quiet_tag) (auto simp: is_line_terminator_def)
  moreover have "quiet (60 # js ''span'' @ [62])"
    by (intro quiet_tag) (auto simp: is_line_terminator_def)
  ultimately show ?thesis using Details by (simp add: quiet_Nil)
next
  case DetailsClose
  have "quiet (60 # js ''/details'' @ [62])"
    by (intro quiet_tag) (auto simp: is_line_terminator_def)
  moreover have "quiet (60 # js ''/span'' @ [62])"
    by (intro quiet_tag) (auto simp: is_line_terminator_def)
  ultimately show ?thesis using DetailsClose by (simp add: quiet_Nil)
qed (use assms in \<open>simp_all add: quiet_Nil\<close>)

lemma quiet_shown:
  assumes "token_ok t"
  shows "quiet (shown mode t)"
proof (cases "t = Quote")
  case True
  then show ?thesis by (simp add: quiet_Nil)
next
  case False
  from quiet_stage6[OF assms False, of mode] False show ?thesis
    by (cases t) (simp_all add: quiet_Nil)
qed

lemma quotes_ok_mono: "quotes_ok b ts \<Longrightarrow> quotes_ok True ts"
  by (cases ts) auto

lemma quotes_ok_prefix: "quotes_ok b (ts @ us) \<Longrightarrow> quotes_ok b ts"
  by (induction ts arbitrary: b) auto

lemma quotes_ok_suffix: "quotes_ok b (ts @ us) \<Longrightarrow> quotes_ok True us"
proof (induction ts arbitrary: b)
  case Nil
  then show ?case by (simp add: quotes_ok_mono)
next
  case (Cons t ts)
  then show ?case by auto
qed

text \<open>
  The seventh replacement deletes every quote prefix: each starts a line, and no other
  \<^verbatim>\<open>>\<close> does.
\<close>

lemma pass6_scan:
  assumes "\<forall>t\<in>set ts. t \<noteq> Quote \<longrightarrow> quiet (stage 6 mode t)"
    and "quotes_ok b ts" and "b \<longrightarrow> line_start p"
  shows "concat (map (\<lambda>p. case p of Lit c \<Rightarrow> [c] | Match x \<Rightarrow> [])
           (scan re_quote p (concat (map (stage 6 mode) ts))))
         = concat (map (stage 7 mode) ts)"
  using assms
proof (induction ts arbitrary: b p)
  case Nil
  then show ?case by simp
next
  case (Cons t ts)
  let ?R = "concat (map (stage 6 mode) ts)"
  from Cons.prems(1) have rest: "\<forall>t\<in>set ts. t \<noteq> Quote \<longrightarrow> quiet (stage 6 mode t)" by simp
  show ?case
  proof (cases "t = Quote")
    case True
    with Cons.prems(2,3) have ls: "line_start p" by simp
    then have "re_quote p (js ''> '' @ ?R) = Some (2, ())"
      by (auto simp: re_quote_def line_start_def split: option.splits)
    then have sc: "scan re_quote p (stage 6 mode t @ ?R) = Match () # scan re_quote (Some 32) ?R"
      using True by simp
    from Cons.prems(2) True have q: "quotes_ok False ts" by simp
    from Cons.IH[OF rest q, of "Some 32"] sc True show ?thesis by simp
  next
    case False
    with Cons.prems(1) have "quiet (stage 6 mode t)" by simp
    then have "calm p (stage 6 mode t)" by (simp add: quiet_def)
    from scan_quote_calm[OF this, of ?R]
    have sc: "scan re_quote p (stage 6 mode t @ ?R)
              = map Lit (stage 6 mode t) @ scan re_quote (after p (stage 6 mode t)) ?R" .
    have s7: "stage 7 mode t = stage 6 mode t" using False by (cases t) auto
    let ?b = "case t of Plain c \<Rightarrow> is_line_terminator c | _ \<Rightarrow> False"
    from Cons.prems(2) have q: "quotes_ok ?b ts" by simp
    have b1: "?b \<longrightarrow> line_start (after p (stage 6 mode t))"
    proof (cases t)
      case (Plain c)
      then show ?thesis by (simp add: after_def line_start_def)
    qed simp_all
    from Cons.IH[OF rest q b1] sc s7 show ?thesis by (simp add: lits_out del: map_map)
  qed
qed

subsection \<open>Trimming a text of pieces\<close>

lemma dropWhile_ws_tokens:
  "(case dropWhile (blank r) ts of [] \<Rightarrow> True | t # us \<Rightarrow> \<not> is_ws (hd (r t)))
   \<Longrightarrow> dropWhile is_ws (concat (map r ts)) = concat (map r (dropWhile (blank r) ts))"
proof (induction ts)
  case Nil
  then show ?case by simp
next
  case (Cons t ts)
  show ?case
  proof (cases "blank r t")
    case True
    then have "dropWhile is_ws (r t @ concat (map r ts)) = dropWhile is_ws (concat (map r ts))"
      by (intro dropWhile_append2) (simp add: blank_def list_all_iff)
    with True Cons show ?thesis by simp
  next
    case False
    then have ne: "r t \<noteq> []" by (auto simp: blank_def)
    from False Cons.prems have "\<not> is_ws (hd (r t))" by simp
    with ne have "dropWhile is_ws (r t @ concat (map r ts)) = r t @ concat (map r ts)"
      by (cases "r t") auto
    with False show ?thesis by simp
  qed
qed

lemma rev_concat_map: "rev (concat (map r ts)) = concat (map (\<lambda>t. rev (r t)) (rev ts))"
  by (induction ts) auto

lemma blank_rev: "blank (\<lambda>t. rev (r t)) = blank r"
  by (auto simp: blank_def fun_eq_iff list_all_iff)

lemma dropWhile_rev_head:
  assumes "dropWhile P xs \<noteq> []"
  shows "\<exists>zs. dropWhile P (rev xs) = dropWhile P (rev (dropWhile P xs)) @ zs
            \<and> dropWhile P (rev (dropWhile P xs)) \<noteq> []"
proof -
  define us where "us = dropWhile P xs"
  have x: "rev xs = rev us @ rev (takeWhile P xs)"
    unfolding us_def by (metis rev_append takeWhile_dropWhile_id)
  from assms have np: "\<not> P (hd us)" unfolding us_def by (rule hd_dropWhile)
  from assms have m: "hd us \<in> set (rev us)" unfolding us_def by simp
  have 1: "dropWhile P (rev us @ rev (takeWhile P xs)) = dropWhile P (rev us) @ rev (takeWhile P xs)"
    using m np by (rule dropWhile_append1)
  have 2: "dropWhile P (rev us) \<noteq> []" using m np by (auto simp: dropWhile_eq_Nil_conv)
  from x 1 2 show ?thesis unfolding us_def by metis
qed

lemma first_kept:
  "\<forall>t\<in>set ts. \<not> B t \<longrightarrow> Q t \<Longrightarrow> case dropWhile B ts of [] \<Rightarrow> True | t # us \<Rightarrow> Q t"
proof (cases "dropWhile B ts")
  case Nil
  then show ?thesis by (simp only: list.case)
next
  case (Cons t us)
  assume a: "\<forall>t\<in>set ts. \<not> B t \<longrightarrow> Q t"
  from Cons have "\<not> B t" by (metis hd_dropWhile list.sel(1) list.discI)
  moreover from Cons have "t \<in> set ts" by (metis list.set_intros(1) set_dropWhileD)
  ultimately show ?thesis using a Cons by simp
qed

text \<open>
  \<^verbatim>\<open>trim\<close> on a text of pieces, when the first piece that is not blank does not start with
  white space and the last one does not end with it.
\<close>

lemma trim_tokens:
  assumes L: "case dropWhile (blank r) ts of [] \<Rightarrow> True | t # us \<Rightarrow> \<not> is_ws (hd (r t))"
    and R: "case dropWhile (blank r) (rev ts) of [] \<Rightarrow> True | t # us \<Rightarrow> \<not> is_ws (last (r t))"
  shows "trim (concat (map r ts)) = concat (map r (core r ts))"
proof -
  let ?B = "blank r"
  let ?us = "dropWhile ?B ts"
  let ?r' = "\<lambda>t. rev (r t)"
  have 1: "dropWhile is_ws (concat (map r ts)) = concat (map r ?us)"
    using L by (rule dropWhile_ws_tokens)
  have c: "case dropWhile (blank ?r') (rev ?us) of [] \<Rightarrow> True | t # vs \<Rightarrow> \<not> is_ws (hd (?r' t))"
  proof (cases "?us = []")
    case True
    have "dropWhile (blank ?r') (rev []) = []" by simp
    with True show ?thesis by (simp only: list.case)
  next
    case False
    from dropWhile_rev_head[OF False] obtain zs where
      z: "dropWhile ?B (rev ts) = dropWhile ?B (rev ?us) @ zs" and ne: "dropWhile ?B (rev ?us) \<noteq> []"
      by blast
    then obtain t vs where tv: "dropWhile ?B (rev ?us) = t # vs"
      by (cases "dropWhile ?B (rev ?us)") auto
    with z R have l: "\<not> is_ws (last (r t))" by simp
    have "\<not> ?B t" using tv by (metis hd_dropWhile list.sel(1) list.discI)
    then have "r t \<noteq> []" by (auto simp: blank_def)
    with l have "\<not> is_ws (hd (rev (r t)))" by (simp add: hd_rev)
    with tv show ?thesis by (simp add: blank_rev)
  qed
  have "dropWhile is_ws (rev (concat (map r ?us)))
        = concat (map ?r' (dropWhile (blank ?r') (rev ?us)))"
    unfolding rev_concat_map using c by (rule dropWhile_ws_tokens)
  then have "rev (dropWhile is_ws (rev (concat (map r ?us))))
        = concat (map r (rev (dropWhile ?B (rev ?us))))"
    by (simp add: rev_concat_map blank_rev rev_map comp_def)
  with 1 show ?thesis by (simp add: trim_def core_def)
qed

lemma trim_ws_ends:
  assumes "\<forall>c\<in>set a. is_ws c" "\<forall>c\<in>set b. is_ws c"
  shows "trim (a @ s @ b) = trim s"
proof -
  have 1: "dropWhile is_ws (a @ s @ b) = dropWhile is_ws (s @ b)"
    using assms(1) by (intro dropWhile_append2) simp
  show ?thesis
  proof (cases "dropWhile is_ws s = []")
    case True
    then have "\<forall>c\<in>set (s @ b). is_ws c" using assms(2) by (auto simp: dropWhile_eq_Nil_conv)
    then have "dropWhile is_ws (s @ b) = []" by (simp only: dropWhile_eq_Nil_conv)
    with 1 True show ?thesis by (simp only: trim_def)
  next
    case False
    then have 2: "dropWhile is_ws (s @ b) = dropWhile is_ws s @ b"
      by (rule dropWhile_append_nonempty)
    have "dropWhile is_ws (rev b @ rev (dropWhile is_ws s))
          = dropWhile is_ws (rev (dropWhile is_ws s))"
      using assms(2) by (intro dropWhile_append2) simp
    then have "dropWhile is_ws (rev (dropWhile is_ws s @ b)) = dropWhile is_ws (rev (dropWhile is_ws s))"
      by (simp only: rev_append)
    with 1 2 show ?thesis by (simp only: trim_def)
  qed
qed

lemma core_split:
  "\<exists>pre post. ts = pre @ core r ts @ post \<and> (\<forall>t\<in>set pre. blank r t) \<and> (\<forall>t\<in>set post. blank r t)"
proof -
  define us where "us = dropWhile (blank r) ts"
  have a: "ts = takeWhile (blank r) ts @ us" unfolding us_def by simp
  have "rev us = takeWhile (blank r) (rev us) @ dropWhile (blank r) (rev us)" by simp
  then have "rev (rev us) = rev (dropWhile (blank r) (rev us)) @ rev (takeWhile (blank r) (rev us))"
    by (metis rev_append)
  then have b: "us = core r ts @ rev (takeWhile (blank r) (rev us))"
    by (simp only: rev_rev_ident core_def us_def)
  have "ts = takeWhile (blank r) ts @ core r ts @ rev (takeWhile (blank r) (rev us))"
    using a b by metis
  moreover have "\<forall>t\<in>set (takeWhile (blank r) ts). blank r t" by (metis set_takeWhileD)
  moreover have "\<forall>t\<in>set (rev (takeWhile (blank r) (rev us))). blank r t"
    by (metis set_rev set_takeWhileD)
  ultimately show ?thesis by blast
qed

lemma blank_stage4: "token_ok t \<Longrightarrow> blank (stage 4 mode) t = passed_over t"
proof (cases t)
  case (Text g)
  assume "token_ok t"
  with Text have "g \<noteq> []" "\<not> is_ws (hd g)" by simp_all
  then have "\<not> list_all is_ws g" by (cases g) auto
  with Text show ?thesis by (simp add: blank_def)
qed (auto simp: blank_def is_ws_def)

lemma dropWhile_blank4:
  "\<forall>t\<in>set ts. token_ok t \<Longrightarrow> dropWhile (blank (stage 4 mode)) ts = dropWhile passed_over ts"
  by (rule dropWhile_cong) (simp_all add: blank_stage4)

lemma passed_over_shown: "passed_over t \<Longrightarrow> \<forall>c\<in>set (shown mode t). is_ws c"
  by (cases t) auto

lemma stage4_hd: "token_ok t \<Longrightarrow> \<not> passed_over t \<Longrightarrow> \<not> is_ws (hd (stage 4 mode t))"
  by (cases t) (auto simp: is_ws_def)

lemma stage4_last:
  "token_ok t \<Longrightarrow> \<not> passed_over t \<Longrightarrow> t \<noteq> Quote \<Longrightarrow> \<not> is_ws (last (stage 4 mode t))"
  by (cases t) (auto simp: is_ws_def)

lemma shown_ends:
  "token_ok t \<Longrightarrow> \<not> blank (shown mode) t \<Longrightarrow>
     \<not> is_ws (hd (shown mode t)) \<and> \<not> is_ws (last (shown mode t))"
  by (cases t) (auto simp: blank_def is_ws_def)

lemma stage_raw:
  "mode \<noteq> js ''think'' \<Longrightarrow> mode \<noteq> js ''strip'' \<Longrightarrow> stage 6 mode t = stage 4 mode t"
  by (cases t) auto

subsection \<open>The transformer on a text of pieces\<close>

text \<open>
  The result on the text of a well-formed list: what is left of the pieces between the
  first and the last piece that the first \<^verbatim>\<open>trim\<close> keeps, trimmed.
\<close>

lemma transform_tokens:
  assumes wf: "well_formed ts"
  shows "\<exists>mid. transformThinkingContent mode (concat (map source ts))
                 = trim (concat (map (shown mode) mid))
            \<and> (\<forall>t\<in>set mid. token_ok t)
            \<and> (\<exists>pre post. ts = pre @ mid @ post \<and> (\<forall>t\<in>set pre. passed_over t)
                   \<and> (\<forall>t\<in>set post. passed_over t))"
proof -
  define mid where "mid = core (stage 4 mode) ts"
  from wf have ok: "\<forall>t\<in>set ts. token_ok t" and q: "quotes_ok True ts" and ntq: "no_trailing_quote ts"
    by (simp_all add: well_formed_def list_all_iff)
  have okr: "\<forall>t\<in>set (rev ts). token_ok t" using ok by simp
  have s0: "map source ts = map (stage 0 mode) ts" by (simp add: stage0)
  have c1: "replace re_summary (\<lambda>_. []) (concat (map source ts)) = concat (map (stage 1 mode) ts)"
    unfolding s0 using ok by (rule pass0)
  have c2: "replace (lit (js ''</Full>'')) (\<lambda>_. [])
              (replace (lit (js ''<Full>'')) (\<lambda>_. [])
                (replace (lit (js ''</thinking>'')) (\<lambda>_. []) (concat (map (stage 1 mode) ts))))
            = concat (map (stage 4 mode) ts)"
    using pass1[OF ok, of mode] pass2[OF ok, of mode] pass3[OF ok, of mode] by simp
  have L: "case dropWhile (blank (stage 4 mode)) ts of [] \<Rightarrow> True
           | t # us \<Rightarrow> \<not> is_ws (hd (stage 4 mode t))"
    by (rule first_kept) (use ok in \<open>simp add: blank_stage4 stage4_hd\<close>)
  have R: "case dropWhile (blank (stage 4 mode)) (rev ts) of [] \<Rightarrow> True
           | t # us \<Rightarrow> \<not> is_ws (last (stage 4 mode t))"
  proof (cases "dropWhile passed_over (rev ts)")
    case Nil
    then show ?thesis by (simp only: dropWhile_blank4[OF okr] list.case)
  next
    case (Cons t us)
    then have "\<not> passed_over t" by (metis hd_dropWhile list.sel(1) list.discI)
    moreover from Cons ntq have "t \<noteq> Quote" by (auto simp: no_trailing_quote_def)
    moreover from Cons have "t \<in> set (rev ts)" by (metis list.set_intros(1) set_dropWhileD)
    with okr have "token_ok t" by blast
    ultimately show ?thesis using Cons by (simp add: dropWhile_blank4[OF okr] stage4_last)
  qed
  have c3: "trim (concat (map (stage 4 mode) ts)) = concat (map (stage 4 mode) mid)"
    unfolding mid_def using L R by (rule trim_tokens)
  from core_split[of ts "stage 4 mode"] obtain pre post where
    sp0: "ts = pre @ mid @ post" "\<forall>t\<in>set pre. blank (stage 4 mode) t"
      "\<forall>t\<in>set post. blank (stage 4 mode) t"
    unfolding mid_def by blast
  from sp0(1) ok have okm: "\<forall>t\<in>set mid. token_ok t" by auto
  have sp: "ts = pre @ mid @ post" "\<forall>t\<in>set pre. passed_over t"
    "\<forall>t\<in>set post. passed_over t"
  proof -
    show "ts = pre @ mid @ post" by (rule sp0(1))
    from sp0(1) ok have "\<forall>t\<in>set pre. token_ok t" "\<forall>t\<in>set post. token_ok t" by auto
    with sp0(2,3) show "\<forall>t\<in>set pre. passed_over t" "\<forall>t\<in>set post. passed_over t"
      using blank_stage4 by blast+
  qed
  have qm: "quotes_ok True mid"
  proof -
    from sp(1) q have "quotes_ok True (pre @ (mid @ post))" by simp
    then have "quotes_ok True (mid @ post)" by (rule quotes_ok_suffix)
    then show ?thesis by (rule quotes_ok_prefix)
  qed
  have c4: "(if mode = js ''think'' then
                 replace (lit (js ''</details>'')) (\<lambda>_. js ''</span>'')
                   (replace re_details (\<lambda>_. js ''<span>'') (concat (map (stage 4 mode) mid)))
               else if mode = js ''strip'' then
                 replace (lit (js ''</details>'')) (\<lambda>_. [])
                   (replace re_details (\<lambda>_. []) (concat (map (stage 4 mode) mid)))
               else concat (map (stage 4 mode) mid))
            = concat (map (stage 6 mode) mid)"
  proof (cases "mode = js ''think'' \<or> mode = js ''strip''")
    case True
    from pass4[OF okm True] pass5[OF okm True] True show ?thesis by auto
  next
    case False
    then have "stage 6 mode = stage 4 mode" by (intro ext) (simp add: stage_raw)
    with False show ?thesis by simp
  qed
  have c5: "replace re_quote (\<lambda>_. []) (concat (map (stage 6 mode) mid))
            = concat (map (shown mode) mid)"
  proof -
    have "\<forall>t\<in>set mid. t \<noteq> Quote \<longrightarrow> quiet (stage 6 mode t)" using okm by (simp add: quiet_stage6)
    moreover have "stage 7 mode = shown mode" by (intro ext) (rule stage7)
    ultimately show ?thesis
      using pass6_scan[OF _ qm, of mode None] by (simp add: replace_def line_start_def)
  qed
  have c6: "replace (lit nl_quote) (\<lambda>_. [10]) (concat (map (shown mode) mid))
            = concat (map (shown mode) mid)"
  proof -
    have "calm None (concat (map (shown mode) mid))"
      using okm by (intro quiet_concat) (simp add: quiet_shown)
    then show ?thesis by (intro replace_no_match calm_no_nl_quote)
  qed
  have "transformThinkingContent mode (concat (map source ts))
        = trim (concat (map (shown mode) mid))"
    unfolding transformThinkingContent_def Let_def c1 c2 c3 c4 c5 c6 ..
  with okm sp show ?thesis by blast
qed

text \<open>What is left of the pieces has no marker.\<close>

lemma shown_marker_free:
  assumes ok: "\<forall>t\<in>set ts. token_ok t"
  shows "marker_free mode (concat (map (shown mode) ts))"
proof -
  let ?y = "concat (map (shown mode) ts)"
  have calm: "calm None ?y" using ok by (intro quiet_concat) (simp add: quiet_shown)
  have inert: "\<forall>t\<in>set ts. inert_in m (shown mode t)"
    if "\<forall>p s. \<not> startsWith s (tags ! n) \<longrightarrow> m p s = None"
      and "n < 4 \<or> (n < 6 \<and> (mode = js ''think'' \<or> mode = js ''strip''))" for m n
  proof
    fix t assume "t \<in> set ts"
    with ok have "safe (tags ! n) (shown mode t)" using that(2) by (intro shown_safe) auto
    moreover from that(2) have "n < 6" by auto
    from tags_head[OF this] obtain P where "tags ! n = 60 # P" by blast
    ultimately show "inert_in m (shown mode t)" using safe_inert[of P m] that(1) by simp
  qed
  have 0: "\<not> test re_summary ?y"
    using inert[of 0 re_summary] re_summary_guard
    by (intro no_match_tokens[OF re_summary_indep]) (simp add: tags_def)
  have 1: "\<not> test (lit (js ''</thinking>'')) ?y"
    using inert[of 1 "lit (js ''</thinking>'')"] lit_guard
    by (intro no_match_tokens[OF lit_indep]) (simp add: tags_def)
  have 2: "\<not> test (lit (js ''<Full>'')) ?y"
    using inert[of 2 "lit (js ''<Full>'')"] lit_guard
    by (intro no_match_tokens[OF lit_indep]) (simp add: tags_def)
  have 3: "\<not> test (lit (js ''</Full>'')) ?y"
    using inert[of 3 "lit (js ''</Full>'')"] lit_guard
    by (intro no_match_tokens[OF lit_indep]) (simp add: tags_def)
  have 4: "\<not> test re_details ?y" if "mode = js ''think'' \<or> mode = js ''strip''"
    using inert[of 4 re_details] re_details_guard that
    by (intro no_match_tokens[OF re_details_indep]) (simp add: tags_def)
  have 5: "\<not> test (lit (js ''</details>'')) ?y" if "mode = js ''think'' \<or> mode = js ''strip''"
    using inert[of 5 "lit (js ''</details>'')"] lit_guard that
    by (intro no_match_tokens[OF lit_indep]) (simp add: tags_def)
  from 0 1 2 3 4 5 calm show ?thesis
    unfolding marker_free_def by (simp add: calm_no_quote calm_no_nl_quote)
qed

text \<open>
  C4, amended: on a text in which the markers stand apart from each other (the text of a
  well-formed list of pieces), \<^verbatim>\<open>transformThinkingContent\<close> returns what is to be left of
  the pieces under the display mode, trimmed, and a second application returns that
  unchanged. This holds under every display mode.
\<close>

theorem transformThinkingContent_idempotent_apart:
  assumes "well_formed ts"
  shows "transformThinkingContent mode (concat (map source ts))
           = trim (concat (map (shown mode) ts))
         \<and> transformThinkingContent mode (transformThinkingContent mode (concat (map source ts)))
           = transformThinkingContent mode (concat (map source ts))"
proof -
  from transform_tokens[OF assms, of mode] obtain mid pre post where
    f: "transformThinkingContent mode (concat (map source ts))
          = trim (concat (map (shown mode) mid))"
    and okm: "\<forall>t\<in>set mid. token_ok t"
    and sp: "ts = pre @ mid @ post" "\<forall>t\<in>set pre. passed_over t" "\<forall>t\<in>set post. passed_over t"
    by blast
  have "trim (concat (map (shown mode) pre) @ concat (map (shown mode) mid)
               @ concat (map (shown mode) post))
        = trim (concat (map (shown mode) mid))"
    using sp(2,3) passed_over_shown by (intro trim_ws_ends) auto
  with sp(1) have A: "trim (concat (map (shown mode) ts)) = trim (concat (map (shown mode) mid))"
    by simp
  define y where "y = trim (concat (map (shown mode) mid))"
  have L: "case dropWhile (blank (shown mode)) mid of [] \<Rightarrow> True
           | t # us \<Rightarrow> \<not> is_ws (hd (shown mode t))"
    by (rule first_kept) (use okm in \<open>simp add: shown_ends\<close>)
  have R: "case dropWhile (blank (shown mode)) (rev mid) of [] \<Rightarrow> True
           | t # us \<Rightarrow> \<not> is_ws (last (shown mode t))"
    by (rule first_kept) (use okm in \<open>simp add: shown_ends\<close>)
  have y: "y = concat (map (shown mode) (core (shown mode) mid))"
    unfolding y_def using L R by (rule trim_tokens)
  from core_split[of mid "shown mode"] okm have "\<forall>t\<in>set (core (shown mode) mid). token_ok t"
    by (metis Un_iff set_append)
  then have mf: "marker_free mode y" unfolding y by (rule shown_marker_free)
  have ty: "trim y = y" unfolding y_def by (rule trim_idem)
  from fixed_point[OF mf ty] f A show ?thesis by (simp add: y_def)
qed

theorem transformThinkingContent_idempotent_apart_witness:
  \<open>well_formed
      [Details (js '' type="reasoning" done="true"''), Plain 10, Summary (js ''Thought for 2 seconds''),
       Plain 10, Quote, Text (js ''if a''), Plain 32, Text (js ''< b then x -> y''), Plain 10,
       DetailsClose, Plain 10, FullOpen, Text (js ''A''), Text (js ''<br>B''), FullClose, Plain 10]
   \<and> concat (map source
      [Details (js '' type="reasoning" done="true"''), Plain 10, Summary (js ''Thought for 2 seconds''),
       Plain 10, Quote, Text (js ''if a''), Plain 32, Text (js ''< b then x -> y''), Plain 10,
       DetailsClose, Plain 10, FullOpen, Text (js ''A''), Text (js ''<br>B''), FullClose, Plain 10])
     = js ''<details type="reasoning" done="true">'' @ [10]
       @ js ''<summary>Thought for 2 seconds</summary>'' @ [10] @ js ''> if a < b then x -> y'' @ [10]
       @ js ''</details>'' @ [10] @ js ''<Full>A<br>B</Full>'' @ [10]
   \<and> transformThinkingContent (js ''think'') (concat (map source
      [Details (js '' type="reasoning" done="true"''), Plain 10, Summary (js ''Thought for 2 seconds''),
       Plain 10, Quote, Text (js ''if a''), Plain 32, Text (js ''< b then x -> y''), Plain 10,
       DetailsClose, Plain 10, FullOpen, Text (js ''A''), Text (js ''<br>B''), FullClose, Plain 10]))
     = js ''<span>'' @ [10, 10] @ js ''if a < b then x -> y'' @ [10] @ js ''</span>'' @ [10]
       @ js ''A<br>B''
   \<and> transformThinkingContent (js ''think'') (transformThinkingContent (js ''think'') (concat (map source
      [Details (js '' type="reasoning" done="true"''), Plain 10, Summary (js ''Thought for 2 seconds''),
       Plain 10, Quote, Text (js ''if a''), Plain 32, Text (js ''< b then x -> y''), Plain 10,
       DetailsClose, Plain 10, FullOpen, Text (js ''A''), Text (js ''<br>B''), FullClose, Plain 10])))
     = transformThinkingContent (js ''think'') (concat (map source
      [Details (js '' type="reasoning" done="true"''), Plain 10, Summary (js ''Thought for 2 seconds''),
       Plain 10, Quote, Text (js ''if a''), Plain 32, Text (js ''< b then x -> y''), Plain 10,
       DetailsClose, Plain 10, FullOpen, Text (js ''A''), Text (js ''<br>B''), FullClose, Plain 10]))\<close>
proof -
  define ts where \<open>ts =
      [Details (js '' type="reasoning" done="true"''), Plain 10, Summary (js ''Thought for 2 seconds''),
       Plain 10, Quote, Text (js ''if a''), Plain 32, Text (js ''< b then x -> y''), Plain 10,
       DetailsClose, Plain 10, FullOpen, Text (js ''A''), Text (js ''<br>B''), FullClose, Plain 10]\<close>
  have wf: "well_formed ts" unfolding ts_def by code_simp
  have src: \<open>concat (map source ts)
     = js ''<details type="reasoning" done="true">'' @ [10]
       @ js ''<summary>Thought for 2 seconds</summary>'' @ [10] @ js ''> if a < b then x -> y'' @ [10]
       @ js ''</details>'' @ [10] @ js ''<Full>A<br>B</Full>'' @ [10]\<close>
    unfolding ts_def by code_simp
  have out: \<open>trim (concat (map (shown (js ''think'')) ts))
     = js ''<span>'' @ [10, 10] @ js ''if a < b then x -> y'' @ [10] @ js ''</span>'' @ [10]
       @ js ''A<br>B''\<close>
    unfolding ts_def by code_simp
  note th = transformThinkingContent_idempotent_apart [OF wf, of "js ''think''"]
  from th out have res: \<open>transformThinkingContent (js ''think'') (concat (map source ts))
     = js ''<span>'' @ [10, 10] @ js ''if a < b then x -> y'' @ [10] @ js ''</span>'' @ [10]
       @ js ''A<br>B''\<close>
    by (simp only:)
  from wf src res th show ?thesis unfolding ts_def by blast
qed

end
